theory Spec2Isabelle
  imports Main "HOL-Library.AList" "HOL-Library.Multiset"
begin

section \<open>The feedback board's post router\<close>

text \<open>
  The request-handling module \<^verbatim>\<open>postRouter\<close> (list, unreadCount, byId, add, setRead)
  and its helper \<^verbatim>\<open>processFeedbackItem\<close>, over a relational store reached through a
  query client. Identifiers are strings, timestamps are integers (milliseconds), nullable
  columns are options.
\<close>

type_synonym ident = string
type_synonym timestamp = int

subsection \<open>Query payloads\<close>

text \<open>
  The shape of what the store returns under \<^verbatim>\<open>defaultPostSelect\<close> and
  \<^verbatim>\<open>withCommentsPostSelect\<close>: one record per selected object, one field per selected
  column. The post's \<^verbatim>\<open>id\<close> is the field \<open>pid\<close>, \<^verbatim>\<open>_count.comments\<close> is
  \<open>count_comments\<close>.
\<close>

record author_payload =
  image :: "string option"
  name :: "string option"

record reader_payload =
  reader_id :: ident
  reader_name :: "string option"

record readBy_payload =
  user :: reader_payload

record commenter_payload =
  commenter_id :: ident
  commenter_name :: "string option"
  commenter_image :: "string option"

record comment_payload =
  c_id :: ident
  c_content :: string
  c_contentHtml :: string
  c_createdAt :: timestamp
  c_author :: commenter_payload

record default_payload =
  pid :: ident
  title :: "string option"
  content :: string
  contentHtml :: string
  createdAt :: timestamp
  updatedAt :: timestamp
  anonymous :: bool
  authorId :: ident
  author :: author_payload
  readBy :: "readBy_payload list"
  count_comments :: nat

text \<open>\<^verbatim>\<open>withCommentsPostSelect = {...defaultPostSelect, comments: ...}\<close>: the default
  payload extended by the comments.\<close>

record MyPostPayload = default_payload +
  comments :: "comment_payload list"

text \<open>
  The rest of a payload once \<^verbatim>\<open>authorId\<close> is taken out of it (the parameter pattern
  \<^verbatim>\<open>{ authorId, ...item }\<close>). The type of \<^verbatim>\<open>readBy\<close> is a parameter: a list in
  the rest of the payload, a dictionary in what \<^verbatim>\<open>processFeedbackItem\<close> returns.
  A dictionary is an object with string keys, as an association list with one entry per
  key, in the order in which the runtime enumerates the keys of the object: the keys
  that are array indices in ascending numeric order, then the other keys in the order in
  which they were created.
\<close>

type_synonym 'v dictionary = "(string \<times> 'v) list"

record 'r feedback_item =
  item_id :: ident
  item_title :: "string option"
  item_content :: string
  item_contentHtml :: string
  item_createdAt :: timestamp
  item_updatedAt :: timestamp
  item_anonymous :: bool
  item_author :: author_payload
  item_readBy :: 'r
  item_count_comments :: nat
  item_comments :: "comment_payload list"

subsection \<open>processFeedbackItem\<close>

text \<open>
  An array index is the canonical decimal numeral of an integer from 0 to 4294967294: a
  non-empty string of digits, with no leading zero unless it is \<^verbatim>\<open>0\<close> itself.
\<close>

definition is_digit :: "char \<Rightarrow> bool" where
  "is_digit c = (48 \<le> (of_char c :: int) \<and> (of_char c :: int) \<le> 57)"

definition decimal_value :: "string \<Rightarrow> int" where
  "decimal_value s = foldl (\<lambda>n c. 10 * n + (of_char c - 48)) 0 s"

definition is_array_index :: "string \<Rightarrow> bool" where
  "is_array_index s =
     (s \<noteq> [] \<and> list_all is_digit s \<and> (s = ''0'' \<or> hd s \<noteq> CHR ''0'')
      \<and> decimal_value s < 4294967295)"

text \<open>
  The assignment \<^verbatim>\<open>obj[k] = v\<close>: a key the object has keeps its place and takes the
  new value; a new key that is an array index goes among the array indices, before the
  first of a greater value; any other new key goes last.
\<close>

fun insert_index :: "string \<Rightarrow> 'v \<Rightarrow> 'v dictionary \<Rightarrow> 'v dictionary" where
  "insert_index k v [] = [(k, v)]"
| "insert_index k v ((k', v') # kvs) =
     (if is_array_index k' \<and> decimal_value k' < decimal_value k
      then (k', v') # insert_index k v kvs
      else (k, v) # (k', v') # kvs)"

definition js_assign :: "'v dictionary \<Rightarrow> string \<Rightarrow> 'v \<Rightarrow> 'v dictionary" where
  "js_assign obj k v =
     (if k \<in> set (map fst obj) then AList.update k v obj
      else if is_array_index k then insert_index k v obj
      else obj @ [(k, v)])"

text \<open>
  \<^verbatim>\<open>keyBy(collection, iteratee)\<close> assigns \<^verbatim>\<open>result[iteratee(value)] = value\<close> for each
  element in order, starting from the empty object.
\<close>

definition keyBy :: "'v list \<Rightarrow> ('v \<Rightarrow> string) \<Rightarrow> 'v dictionary" where
  "keyBy collection iteratee =
     foldl (\<lambda>result v. js_assign result (iteratee v) v) [] collection"

text \<open>The property path \<^verbatim>\<open>'user.id'\<close>.\<close>

definition user_id_path :: "readBy_payload \<Rightarrow> string" where
  "user_id_path m = reader_id (user m)"

text \<open>\<^verbatim>\<open>s += t\<close> on a nullable string: \<^verbatim>\<open>null\<close> is printed as its name.\<close>

definition js_append :: "string option \<Rightarrow> string \<Rightarrow> string option" where
  "js_append s t = (case s of None \<Rightarrow> Some (''null'' @ t) | Some s' \<Rightarrow> Some (s' @ t))"

text \<open>The parameter pattern \<^verbatim>\<open>{ authorId, ...item }\<close>: the author identifier on one
  side, a copy of every other field on the other.\<close>

definition destructure ::
  "MyPostPayload \<Rightarrow> ident \<times> readBy_payload list feedback_item" where
  "destructure p =
     (authorId p,
      \<lparr>item_id = pid p, item_title = title p, item_content = content p,
       item_contentHtml = contentHtml p, item_createdAt = createdAt p,
       item_updatedAt = updatedAt p, item_anonymous = anonymous p,
       item_author = author p, item_readBy = readBy p,
       item_count_comments = count_comments p, item_comments = comments p\<rparr>)"

text \<open>The object literal \<^verbatim>\<open>{ ...item, readBy: r }\<close>.\<close>

definition spread_readBy :: "'a feedback_item \<Rightarrow> 'b \<Rightarrow> 'b feedback_item" where
  "spread_readBy item r =
     \<lparr>item_id = item_id item, item_title = item_title item,
      item_content = item_content item, item_contentHtml = item_contentHtml item,
      item_createdAt = item_createdAt item, item_updatedAt = item_updatedAt item,
      item_anonymous = item_anonymous item, item_author = item_author item,
      item_readBy = r,
      item_count_comments = item_count_comments item,
      item_comments = item_comments item\<rparr>"

definition processFeedbackItem ::
  "MyPostPayload \<Rightarrow> ident \<Rightarrow> readBy_payload dictionary feedback_item" where
  "processFeedbackItem p sessionUserId =
     (case destructure p of (authorId', item) \<Rightarrow>
        let item =
          (if item_anonymous item then
             let item = item\<lparr>item_author := (item_author item)\<lparr>name := Some ''Anonymous''\<rparr>\<rparr>;
                 item = item\<lparr>item_author := (item_author item)\<lparr>image := None\<rparr>\<rparr>
             in if authorId' = sessionUserId
                then item\<lparr>item_author :=
                       (item_author item)\<lparr>name := js_append (name (item_author item)) '' (you)''\<rparr>\<rparr>
                else item
           else item)
        in spread_readBy item (keyBy (item_readBy item) user_id_path))"

subsection \<open>The store\<close>

text \<open>
  Modelled from the spec: the store's schema is not among the sources. The tables are
  those of section 3 of the specification (Post, Comment, ReadMarker, User), with the
  columns the module selects, filters on and orders by. A table is the list of its rows;
  the query client \<^verbatim>\<open>prisma\<close> is the record of the tables.
\<close>

record User =
  user_id :: ident
  user_name :: "string option"
  user_image :: "string option"

record Post =
  post_id :: ident
  post_title :: "string option"
  post_content :: string
  post_contentHtml :: string
  post_createdAt :: timestamp
  post_updatedAt :: timestamp
  post_anonymous :: bool
  post_authorId :: ident
  post_published :: bool
  post_hidden :: bool

record Comment =
  comment_id :: ident
  comment_content :: string
  comment_contentHtml :: string
  comment_createdAt :: timestamp
  comment_authorId :: ident
  comment_postId :: ident

record ReadPosts =
  readPosts_postId :: ident
  readPosts_userId :: ident
  readPosts_updatedAt :: timestamp

record prisma =
  user_table :: "User list"
  post_table :: "Post list"
  comment_table :: "Comment list"
  readPosts_table :: "ReadPosts list"

datatype store_failure =
  RequiredRelationMissing
  | RecordToConnectNotFound
  | UniqueConstraintFailed

datatype error =
  NOT_FOUND string
  | STORE_FAILURE store_failure

subsection \<open>Where clauses\<close>

text \<open>
  The predicates the module hands to the store, as data: \<^verbatim>\<open>{}\<close>,
  \<^verbatim>\<open>{published: b}\<close>, \<^verbatim>\<open>{hidden: b}\<close>, \<^verbatim>\<open>{NOT: w}\<close>,
  \<^verbatim>\<open>{readBy: {some: w}}\<close>, \<^verbatim>\<open>{comments: {some: w}}\<close> and
  \<^verbatim>\<open>{comments: {none: w}}\<close> on posts; \<^verbatim>\<open>{}\<close> and \<^verbatim>\<open>{authorId: u}\<close> on
  comments; \<^verbatim>\<open>{userId: u}\<close> on read-markers.
\<close>

datatype ReadPostsWhereInput = ReadPosts_userId ident

datatype CommentWhereInput = Comment_empty | Comment_authorId ident

datatype PostWhereInput =
  Where_empty
  | Where_published bool
  | Where_hidden bool
  | Where_NOT PostWhereInput
  | Where_readBy_some ReadPostsWhereInput
  | Where_comments_some CommentWhereInput
  | Where_comments_none CommentWhereInput

fun readPosts_matches :: "ReadPostsWhereInput \<Rightarrow> ReadPosts \<Rightarrow> bool" where
  "readPosts_matches (ReadPosts_userId u) m = (readPosts_userId m = u)"

fun comment_matches :: "CommentWhereInput \<Rightarrow> Comment \<Rightarrow> bool" where
  "comment_matches Comment_empty c = True"
| "comment_matches (Comment_authorId u) c = (comment_authorId c = u)"

text \<open>The relations of a post: its read-markers and its comments.\<close>

definition readBy_of :: "prisma \<Rightarrow> Post \<Rightarrow> ReadPosts list" where
  "readBy_of db p = filter (\<lambda>m. readPosts_postId m = post_id p) (readPosts_table db)"

definition comments_of :: "prisma \<Rightarrow> Post \<Rightarrow> Comment list" where
  "comments_of db p = filter (\<lambda>c. comment_postId c = post_id p) (comment_table db)"

fun post_matches :: "prisma \<Rightarrow> PostWhereInput \<Rightarrow> Post \<Rightarrow> bool" where
  "post_matches db Where_empty p = True"
| "post_matches db (Where_published b) p = (post_published p = b)"
| "post_matches db (Where_hidden b) p = (post_hidden p = b)"
| "post_matches db (Where_NOT w) p = (\<not> post_matches db w p)"
| "post_matches db (Where_readBy_some w) p =
     (\<exists>m \<in> set (readBy_of db p). readPosts_matches w m)"
| "post_matches db (Where_comments_some w) p =
     (\<exists>c \<in> set (comments_of db p). comment_matches w c)"
| "post_matches db (Where_comments_none w) p =
     (\<not> (\<exists>c \<in> set (comments_of db p). comment_matches w c))"

datatype Filter = All | Draft | Unread | Replied | RepliedByMe | Unreplied | UnrepliedByMe

text \<open>\<^verbatim>\<open>getFilterWhereClause\<close>, closed over \<^verbatim>\<open>ctx.session.user.id\<close>.\<close>

fun getFilterWhereClause :: "ident \<Rightarrow> Filter \<Rightarrow> PostWhereInput" where
  "getFilterWhereClause sessionUserId All = Where_empty"
| "getFilterWhereClause sessionUserId Draft = Where_published False"
| "getFilterWhereClause sessionUserId Unread =
     Where_NOT (Where_readBy_some (ReadPosts_userId sessionUserId))"
| "getFilterWhereClause sessionUserId Replied = Where_comments_some Comment_empty"
| "getFilterWhereClause sessionUserId RepliedByMe =
     Where_comments_some (Comment_authorId sessionUserId)"
| "getFilterWhereClause sessionUserId Unreplied = Where_comments_none Comment_empty"
| "getFilterWhereClause sessionUserId UnrepliedByMe =
     Where_comments_none (Comment_authorId sessionUserId)"

subsection \<open>Selections\<close>

text \<open>
  A selection reads a row's columns and follows its relations. The relations
  \<^verbatim>\<open>author\<close> and \<^verbatim>\<open>user\<close> are required: where the referenced user row is
  missing, the store fails instead of returning a payload.
\<close>

definition find_user :: "prisma \<Rightarrow> ident \<Rightarrow> User option" where
  "find_user db i = find (\<lambda>u. user_id u = i) (user_table db)"

fun traverse :: "('a \<Rightarrow> error + 'b) \<Rightarrow> 'a list \<Rightarrow> error + 'b list" where
  "traverse f [] = Inr []"
| "traverse f (x # xs) =
     (case f x of
        Inl e \<Rightarrow> Inl e
      | Inr y \<Rightarrow> (case traverse f xs of Inl e \<Rightarrow> Inl e | Inr ys \<Rightarrow> Inr (y # ys)))"

definition select_author :: "prisma \<Rightarrow> ident \<Rightarrow> error + author_payload" where
  "select_author db i =
     (case find_user db i of
        None \<Rightarrow> Inl (STORE_FAILURE RequiredRelationMissing)
      | Some u \<Rightarrow> Inr \<lparr>image = user_image u, name = user_name u\<rparr>)"

definition select_readBy :: "prisma \<Rightarrow> ReadPosts \<Rightarrow> error + readBy_payload" where
  "select_readBy db m =
     (case find_user db (readPosts_userId m) of
        None \<Rightarrow> Inl (STORE_FAILURE RequiredRelationMissing)
      | Some u \<Rightarrow> Inr \<lparr>user = \<lparr>reader_id = user_id u, reader_name = user_name u\<rparr>\<rparr>)"

definition select_comment :: "prisma \<Rightarrow> Comment \<Rightarrow> error + comment_payload" where
  "select_comment db c =
     (case find_user db (comment_authorId c) of
        None \<Rightarrow> Inl (STORE_FAILURE RequiredRelationMissing)
      | Some u \<Rightarrow>
          Inr \<lparr>c_id = comment_id c, c_content = comment_content c,
               c_contentHtml = comment_contentHtml c, c_createdAt = comment_createdAt c,
               c_author = \<lparr>commenter_id = user_id u, commenter_name = user_name u,
                           commenter_image = user_image u\<rparr>\<rparr>)"

definition defaultPostSelect :: "prisma \<Rightarrow> Post \<Rightarrow> error + default_payload" where
  "defaultPostSelect db p =
     (case select_author db (post_authorId p) of
        Inl e \<Rightarrow> Inl e
      | Inr a \<Rightarrow>
          (case traverse (select_readBy db) (sort_key readPosts_updatedAt (readBy_of db p)) of
             Inl e \<Rightarrow> Inl e
           | Inr rb \<Rightarrow>
               Inr \<lparr>pid = post_id p, title = post_title p, content = post_content p,
                    contentHtml = post_contentHtml p, createdAt = post_createdAt p,
                    updatedAt = post_updatedAt p, anonymous = post_anonymous p,
                    authorId = post_authorId p, author = a, readBy = rb,
                    count_comments = length (comments_of db p)\<rparr>))"

definition withCommentsPostSelect :: "prisma \<Rightarrow> Post \<Rightarrow> error + MyPostPayload" where
  "withCommentsPostSelect db p =
     (case defaultPostSelect db p of
        Inl e \<Rightarrow> Inl e
      | Inr d \<Rightarrow>
          (case traverse (select_comment db) (sort_key comment_createdAt (comments_of db p)) of
             Inl e \<Rightarrow> Inl e
           | Inr cs \<Rightarrow> Inr (default_payload.extend d (MyPostPayload.fields cs))))"

subsection \<open>Queries\<close>

text \<open>
  The operations of the query client the module calls: \<^verbatim>\<open>findMany\<close> filters the
  table, orders it, starts at the cursor and takes the number of rows asked for;
  \<^verbatim>\<open>findUnique\<close> looks a key up; \<^verbatim>\<open>count\<close> counts the rows a where clause
  selects.
\<close>

datatype SortOrder = Asc | Desc

text \<open>
  \<^verbatim>\<open>orderBy: {createdAt: order}\<close>. Rows of equal creation time keep their table order.
\<close>

definition orderBy_createdAt :: "SortOrder \<Rightarrow> Post list \<Rightarrow> Post list" where
  "orderBy_createdAt ord ps =
     (case ord of
        Asc \<Rightarrow> sort_key post_createdAt ps
      | Desc \<Rightarrow> sort_key (\<lambda>p. - post_createdAt p) ps)"

text \<open>
  \<^verbatim>\<open>cursor: {id: c}\<close>: the result starts at the row of that identifier, the row itself
  included; with no such row the result is empty. \<^verbatim>\<open>cursor: undefined\<close> starts at the
  first row.
\<close>

definition from_cursor :: "ident option \<Rightarrow> Post list \<Rightarrow> Post list" where
  "from_cursor c ps =
     (case c of None \<Rightarrow> ps | Some i \<Rightarrow> dropWhile (\<lambda>p. post_id p \<noteq> i) ps)"

text \<open>\<^verbatim>\<open>take: n\<close>; with no \<^verbatim>\<open>take\<close> every row is returned.\<close>

definition take_rows :: "nat option \<Rightarrow> 'a list \<Rightarrow> 'a list" where
  "take_rows n ps = (case n of None \<Rightarrow> ps | Some k \<Rightarrow> take k ps)"

definition post_rows ::
  "prisma \<Rightarrow> PostWhereInput \<Rightarrow> SortOrder \<Rightarrow> ident option \<Rightarrow> nat option \<Rightarrow> Post list" where
  "post_rows db w ord c n =
     take_rows n (from_cursor c (orderBy_createdAt ord (filter (post_matches db w) (post_table db))))"

text \<open>\<^verbatim>\<open>prisma.post.findMany({select: withCommentsPostSelect, take, cursor, orderBy, where})\<close>.\<close>

definition post_findMany ::
  "prisma \<Rightarrow> nat option \<Rightarrow> ident option \<Rightarrow> SortOrder \<Rightarrow> PostWhereInput
     \<Rightarrow> error + MyPostPayload list" where
  "post_findMany db n c ord w = traverse (withCommentsPostSelect db) (post_rows db w ord c n)"


definition post_count :: "prisma \<Rightarrow> PostWhereInput \<Rightarrow> nat" where
  "post_count db w = length (filter (post_matches db w) (post_table db))"

definition readPosts_count :: "prisma \<Rightarrow> ReadPostsWhereInput \<Rightarrow> nat" where
  "readPosts_count db w = length (filter (readPosts_matches w) (readPosts_table db))"

subsection \<open>list\<close>

text \<open>
  Modelled from the spec: the input schema \<^verbatim>\<open>listPostsInputSchema\<close> is not among the
  sources. Section 6 of the specification gives the input a filter, an order, an optional
  limit and an optional cursor.
\<close>

record ListPostsInput =
  input_filter :: Filter
  input_order :: SortOrder
  input_limit :: "nat option"
  input_cursor :: "ident option"

record list_response =
  items :: "readBy_payload dictionary feedback_item list"
  nextCursor :: "ident option"

text \<open>\<^verbatim>\<open>cursor ? {id: cursor} : undefined\<close>: an absent cursor and the empty string are
  both falsy.\<close>

definition cursor_argument :: "ident option \<Rightarrow> ident option" where
  "cursor_argument cursor =
     (case cursor of None \<Rightarrow> None | Some c \<Rightarrow> if c = [] then None else Some c)"

definition postRouter_list :: "prisma \<Rightarrow> ident \<Rightarrow> ListPostsInput \<Rightarrow> error + list_response" where
  "postRouter_list db sessionUserId input =
     (let limit = (case input_limit input of None \<Rightarrow> 50 | Some l \<Rightarrow> l);
          cursor = input_cursor input
      in case post_findMany db (Some (limit + 1)) (cursor_argument cursor) (input_order input)
                (getFilterWhereClause sessionUserId (input_filter input)) of
           Inl e \<Rightarrow> Inl e
         | Inr found \<Rightarrow>
             (case (if length found > limit
                    then (butlast found, Some (pid (last found)))
                    else (found, None)) of
                (items', nextCursor') \<Rightarrow>
                  Inr \<lparr>items = rev (map (\<lambda>item. processFeedbackItem item sessionUserId) items'),
                       nextCursor = nextCursor'\<rparr>))"

subsection \<open>unreadCount\<close>

record unread_response =
  unreadCount :: int
  totalCount :: int

definition postRouter_unreadCount :: "prisma \<Rightarrow> ident \<Rightarrow> unread_response" where
  "postRouter_unreadCount db sessionUserId =
     (let readCount = readPosts_count db (ReadPosts_userId sessionUserId);
          allVisiblePostsCount = post_count db (Where_hidden False)
      in \<lparr>unreadCount = int allVisiblePostsCount - int readCount,
          totalCount = int allVisiblePostsCount\<rparr>)"

subsection \<open>byId\<close>



subsection \<open>add\<close>

text \<open>
  Modelled from the spec: the input schema \<^verbatim>\<open>addPostSchema\<close> and the store's schema
  are not among the sources. Section 6 of the specification gives the input a title, a
  content and an optional anonymity flag; the rendered content is the column the
  selection reads. What the store supplies for a new post row (the generated identifier,
  the current time and the column defaults) is a parameter.
\<close>

record addPostInput =
  add_title :: "string option"
  add_content :: string
  add_contentHtml :: string
  add_anonymous :: "bool option"

record post_generated =
  generated_id :: ident
  generated_now :: timestamp
  default_anonymous :: bool
  default_published :: bool
  default_hidden :: bool

text \<open>\<^verbatim>\<open>prisma.post.create({data: {...input, author: {connect: {id}}}, select:
  defaultPostSelect})\<close>: the user to connect must exist and the identifier must be new.\<close>

definition new_post_row :: "post_generated \<Rightarrow> addPostInput \<Rightarrow> ident \<Rightarrow> Post" where
  "new_post_row g input connect_id =
     \<lparr>post_id = generated_id g, post_title = add_title input,
      post_content = add_content input, post_contentHtml = add_contentHtml input,
      post_createdAt = generated_now g, post_updatedAt = generated_now g,
      post_anonymous =
        (case add_anonymous input of None \<Rightarrow> default_anonymous g | Some b \<Rightarrow> b),
      post_authorId = connect_id, post_published = default_published g,
      post_hidden = default_hidden g\<rparr>"

definition post_create ::
  "prisma \<Rightarrow> post_generated \<Rightarrow> addPostInput \<Rightarrow> ident \<Rightarrow> error + prisma \<times> default_payload" where
  "post_create db g input connect_id =
     (case find_user db connect_id of
        None \<Rightarrow> Inl (STORE_FAILURE RecordToConnectNotFound)
      | Some u \<Rightarrow>
          if \<exists>p \<in> set (post_table db). post_id p = generated_id g
          then Inl (STORE_FAILURE UniqueConstraintFailed)
          else
            (let row = new_post_row g input connect_id;
                 db' = db\<lparr>post_table := post_table db @ [row]\<rparr>
             in case defaultPostSelect db' row of
                  Inl e \<Rightarrow> Inl e
                | Inr post \<Rightarrow> Inr (db', post)))"

definition postRouter_add ::
  "prisma \<Rightarrow> post_generated \<Rightarrow> ident \<Rightarrow> addPostInput \<Rightarrow> error + prisma \<times> default_payload" where
  "postRouter_add db g sessionUserId input = post_create db g input sessionUserId"

subsection \<open>setRead\<close>

text \<open>
  \<^verbatim>\<open>prisma.readPosts.upsert({where: {postId_userId: {userId, postId}}, update: {},
  create: {user: {connect: {id: userId}}, post: {connect: {id: postId}}}})\<close>: with a row
  of that key the empty update writes nothing and the row is returned; with none a row is
  created, provided the user and the post to connect exist.
\<close>

definition readPosts_upsert ::
  "prisma \<Rightarrow> timestamp \<Rightarrow> ident \<Rightarrow> ident \<Rightarrow> error + prisma \<times> ReadPosts" where
  "readPosts_upsert db now userId postId =
     (case find (\<lambda>m. readPosts_postId m = postId \<and> readPosts_userId m = userId)
             (readPosts_table db) of
        Some m \<Rightarrow> Inr (db, m)
      | None \<Rightarrow>
          if (\<exists>u \<in> set (user_table db). user_id u = userId)
             \<and> (\<exists>p \<in> set (post_table db). post_id p = postId)
          then
            (let m = \<lparr>readPosts_postId = postId, readPosts_userId = userId,
                      readPosts_updatedAt = now\<rparr>
             in Inr (db\<lparr>readPosts_table := readPosts_table db @ [m]\<rparr>, m))
          else Inl (STORE_FAILURE RecordToConnectNotFound))"

definition postRouter_setRead ::
  "prisma \<Rightarrow> timestamp \<Rightarrow> ident \<Rightarrow> ident \<Rightarrow> error + prisma \<times> ReadPosts" where
  "postRouter_setRead db now sessionUserId i = readPosts_upsert db now sessionUserId i"

text \<open>The states a store reaches from \<open>db0\<close> through successful calls of
  \<^verbatim>\<open>setRead\<close>, by any users, on any posts, at any times.\<close>

inductive setRead_reachable :: "prisma \<Rightarrow> prisma \<Rightarrow> bool" for db0 :: prisma where
  reach_start: "setRead_reachable db0 db0"
| reach_setRead:
    "setRead_reachable db0 db \<Longrightarrow> postRouter_setRead db now u i = Inr (db', m)
       \<Longrightarrow> setRead_reachable db0 db'"

text \<open>The number of read-markers of a user on a post, and the invariant of the
  read-marker table: at most one marker per pair of user and post.\<close>

definition marker_count :: "prisma \<Rightarrow> ident \<Rightarrow> ident \<Rightarrow> nat" where
  "marker_count db userId postId =
     length (filter (\<lambda>m. readPosts_postId m = postId \<and> readPosts_userId m = userId)
               (readPosts_table db))"

definition markers_unique :: "prisma \<Rightarrow> bool" where
  "markers_unique db =
     distinct (map (\<lambda>m. (readPosts_postId m, readPosts_userId m)) (readPosts_table db))"

subsection \<open>Store invariants\<close>

text \<open>
  The constraints the store keeps on its tables, as far as the module relies on them:
  the identifier is the key of the post table and is never the empty string, and the
  user a post, a comment or a read-marker refers to exists.
\<close>

definition post_ids_keyed :: "prisma \<Rightarrow> bool" where
  "post_ids_keyed db =
     (distinct (map post_id (post_table db)) \<and> [] \<notin> set (map post_id (post_table db)))"

definition relations_resolve :: "prisma \<Rightarrow> bool" where
  "relations_resolve db =
     ((\<forall>p \<in> set (post_table db). \<exists>u \<in> set (user_table db). user_id u = post_authorId p)
      \<and> (\<forall>c \<in> set (comment_table db). \<exists>u \<in> set (user_table db). user_id u = comment_authorId c)
      \<and> (\<forall>m \<in> set (readPosts_table db). \<exists>u \<in> set (user_table db). user_id u = readPosts_userId m))"

subsection \<open>A client paging through list\<close>

text \<open>
  The client of \<^verbatim>\<open>list\<close>: it calls with a cursor, keeps the response, and calls again
  with the response's \<^verbatim>\<open>nextCursor\<close> until a response has none. The first argument
  bounds the number of calls: \<open>None\<close> is the client still calling when the bound is
  reached, \<open>Some (Inl e)\<close> a call that failed, \<open>Some (Inr rs)\<close> the responses in the order
  received.
\<close>

fun fetch_pages ::
  "nat \<Rightarrow> prisma \<Rightarrow> ident \<Rightarrow> Filter \<Rightarrow> SortOrder \<Rightarrow> nat option \<Rightarrow> ident option
     \<Rightarrow> (error + list_response list) option" where
  "fetch_pages 0 db sessionUserId f ord lim c = None"
| "fetch_pages (Suc n) db sessionUserId f ord lim c =
     (case postRouter_list db sessionUserId
             \<lparr>input_filter = f, input_order = ord, input_limit = lim, input_cursor = c\<rparr> of
        Inl e \<Rightarrow> Some (Inl e)
      | Inr r \<Rightarrow>
          (case nextCursor r of
             None \<Rightarrow> Some (Inr [r])
           | Some c' \<Rightarrow>
               (case fetch_pages n db sessionUserId f ord lim (Some c') of
                  None \<Rightarrow> None
                | Some (Inl e) \<Rightarrow> Some (Inl e)
                | Some (Inr rs) \<Rightarrow> Some (Inr (r # rs)))))"

text \<open>The items of all responses, one response after the other; and the same with each
  response's items put back in the order in which the store returned them.\<close>

definition all_items :: "list_response list \<Rightarrow> readBy_payload dictionary feedback_item list" where
  "all_items rs = concat (map items rs)"

definition all_items_in_fetch_order ::
  "list_response list \<Rightarrow> readBy_payload dictionary feedback_item list" where
  "all_items_in_fetch_order rs = concat (map (\<lambda>r. rev (items r)) rs)"

text \<open>One fetch with the same filter and order and neither \<^verbatim>\<open>take\<close> nor
  \<^verbatim>\<open>cursor\<close>, each record processed for the session user.\<close>

definition unpaginated_fetch ::
  "prisma \<Rightarrow> ident \<Rightarrow> Filter \<Rightarrow> SortOrder
     \<Rightarrow> error + readBy_payload dictionary feedback_item list" where
  "unpaginated_fetch db sessionUserId f ord =
     (case post_findMany db None None ord (getFilterWhereClause sessionUserId f) of
        Inl e \<Rightarrow> Inl e
      | Inr found \<Rightarrow> Inr (map (\<lambda>item. processFeedbackItem item sessionUserId) found))"

text \<open>The limit of a request, \<^verbatim>\<open>input.limit ?? 50\<close>, and the posts a filter selects
  for a user, in the requested order: what the store pages through.\<close>

definition page_limit :: "nat option \<Rightarrow> nat" where
  "page_limit lim = (case lim of None \<Rightarrow> 50 | Some l \<Rightarrow> l)"

definition matching_posts :: "prisma \<Rightarrow> ident \<Rightarrow> Filter \<Rightarrow> SortOrder \<Rightarrow> Post list" where
  "matching_posts db u f ord =
     orderBy_createdAt ord (filter (post_matches db (getFilterWhereClause u f)) (post_table db))"

text \<open>What identifies a response: the identifiers of its items and its cursor.\<close>

definition response_ids :: "list_response \<Rightarrow> ident list \<times> ident option" where
  "response_ids r = (map item_id (items r), nextCursor r)"

subsection \<open>Order of keys\<close>

text \<open>The order of the keys of an object: an array index is never after a key that is
  not one, nor after an array index of a greater value.\<close>

definition index_first :: "string \<Rightarrow> string \<Rightarrow> bool" where
  "index_first a b = (is_array_index b \<longrightarrow> is_array_index a \<and> decimal_value a \<le> decimal_value b)"

subsection \<open>Order of first occurrence\<close>

text \<open>The elements of a list in the order in which each occurs first.\<close>

fun first_occurrences :: "'a list \<Rightarrow> 'a list" where
  "first_occurrences [] = []"
| "first_occurrences (x # xs) = x # filter (\<lambda>y. y \<noteq> x) (first_occurrences xs)"

section \<open>Example data\<close>

text \<open>An anonymous post of user \<open>u1\<close>, read by \<open>u2\<close> and then by \<open>u1\<close>, with one
  comment.\<close>

definition example_payload :: MyPostPayload where
  "example_payload =
     \<lparr>pid = ''p1'', title = Some ''T'', content = ''C'', contentHtml = ''<p>C</p>'',
      createdAt = 10, updatedAt = 10, anonymous = True, authorId = ''u1'',
      author = \<lparr>image = Some ''ada.png'', name = Some ''Ada''\<rparr>,
      readBy = [\<lparr>user = \<lparr>reader_id = ''u2'', reader_name = Some ''Bob''\<rparr>\<rparr>,
                \<lparr>user = \<lparr>reader_id = ''u1'', reader_name = Some ''Ada''\<rparr>\<rparr>],
      count_comments = 1,
      comments = [\<lparr>c_id = ''c1'', c_content = ''hi'', c_contentHtml = ''<p>hi</p>'',
                   c_createdAt = 12,
                   c_author = \<lparr>commenter_id = ''u1'', commenter_name = Some ''Ada'',
                               commenter_image = Some ''ada.png''\<rparr>\<rparr>]\<rparr>"

text \<open>The same post, read by users whose identifiers are the numerals 10 and 2.\<close>

definition example_index_payload :: MyPostPayload where
  "example_index_payload =
     example_payload
       \<lparr>readBy := [\<lparr>user = \<lparr>reader_id = ''10'', reader_name = Some ''Ten''\<rparr>\<rparr>,
                   \<lparr>user = \<lparr>reader_id = ''2'', reader_name = Some ''Two''\<rparr>\<rparr>]\<rparr>"

text \<open>The same post, not anonymous.\<close>

definition example_public_payload :: MyPostPayload where
  "example_public_payload = example_payload\<lparr>anonymous := False\<rparr>"

text \<open>A store with two users and three posts, of which only the first is visible; the
  first post is the one above. User \<open>u2\<close> has read all three posts.\<close>

definition example_db :: prisma where
  "example_db =
     \<lparr>user_table =
        [\<lparr>user_id = ''u1'', user_name = Some ''Ada'', user_image = Some ''ada.png''\<rparr>,
         \<lparr>user_id = ''u2'', user_name = Some ''Bob'', user_image = None\<rparr>],
      post_table =
        [\<lparr>post_id = ''p1'', post_title = Some ''T'', post_content = ''C'',
          post_contentHtml = ''<p>C</p>'', post_createdAt = 10, post_updatedAt = 10,
          post_anonymous = True, post_authorId = ''u1'', post_published = True,
          post_hidden = False\<rparr>,
         \<lparr>post_id = ''p2'', post_title = None, post_content = ''D'',
          post_contentHtml = ''<p>D</p>'', post_createdAt = 20, post_updatedAt = 20,
          post_anonymous = False, post_authorId = ''u2'', post_published = False,
          post_hidden = True\<rparr>,
         \<lparr>post_id = ''p3'', post_title = Some ''E'', post_content = ''E'',
          post_contentHtml = ''<p>E</p>'', post_createdAt = 30, post_updatedAt = 30,
          post_anonymous = False, post_authorId = ''u1'', post_published = True,
          post_hidden = True\<rparr>],
      comment_table =
        [\<lparr>comment_id = ''c1'', comment_content = ''hi'', comment_contentHtml = ''<p>hi</p>'',
          comment_createdAt = 12, comment_authorId = ''u1'', comment_postId = ''p1''\<rparr>],
      readPosts_table =
        [\<lparr>readPosts_postId = ''p1'', readPosts_userId = ''u1'', readPosts_updatedAt = 16\<rparr>,
         \<lparr>readPosts_postId = ''p1'', readPosts_userId = ''u2'', readPosts_updatedAt = 15\<rparr>,
         \<lparr>readPosts_postId = ''p2'', readPosts_userId = ''u2'', readPosts_updatedAt = 25\<rparr>,
         \<lparr>readPosts_postId = ''p3'', readPosts_userId = ''u2'', readPosts_updatedAt = 35\<rparr>]\<rparr>"

text \<open>The marker user \<open>u1\<close> leaves on the second post at time 40, and the store with it.\<close>

definition example_marker :: ReadPosts where
  "example_marker =
     \<lparr>readPosts_postId = ''p2'', readPosts_userId = ''u1'', readPosts_updatedAt = 40\<rparr>"

definition example_db_read :: prisma where
  "example_db_read =
     example_db\<lparr>readPosts_table := readPosts_table example_db @ [example_marker]\<rparr>"

text \<open>What the store generates for a fourth post, and an anonymous post to add.\<close>

definition example_generated :: post_generated where
  "example_generated =
     \<lparr>generated_id = ''p4'', generated_now = 50, default_anonymous = False,
      default_published = True, default_hidden = False\<rparr>"

definition example_input :: addPostInput where
  "example_input =
     \<lparr>add_title = Some ''T'', add_content = ''C'', add_contentHtml = ''<p>C</p>'',
      add_anonymous = Some True\<rparr>"

text \<open>A request for pages of two posts, oldest first.\<close>

definition example_request :: ListPostsInput where
  "example_request =
     \<lparr>input_filter = All, input_order = Asc, input_limit = Some 2, input_cursor = None\<rparr>"

text \<open>A request for the next page of one post, newest first, from the second post on.\<close>

definition example_request_next :: ListPostsInput where
  "example_request_next =
     \<lparr>input_filter = All, input_order = Desc, input_limit = Some 1, input_cursor = Some ''p2''\<rparr>"

section \<open>Properties\<close>

subsection \<open>Association lists in creation order\<close>

lemma set_first_occurrences: "set (first_occurrences xs) = set xs"
  by (induction xs) auto

lemma distinct_first_occurrences: "distinct (first_occurrences xs)"
  by (induction xs) auto

lemma first_occurrences_distinct: "distinct xs \<Longrightarrow> first_occurrences xs = xs"
  by (induction xs) (auto simp: set_first_occurrences filter_id_conv)

lemma keys_foldl_update:
  "map fst (foldl (\<lambda>result v. AList.update (f v) v result) acc xs) =
     map fst acc @ filter (\<lambda>k. k \<notin> set (map fst acc)) (first_occurrences (map f xs))"
proof (induction xs arbitrary: acc)
  case Nil
  then show ?case by simp
next
  case (Cons x xs)
  show ?case
  proof (cases "f x \<in> set (map fst acc)")
    case True
    then have "filter (\<lambda>k. k \<notin> set (map fst acc)) (filter (\<lambda>y. y \<noteq> f x) ys) =
               filter (\<lambda>k. k \<notin> set (map fst acc)) ys" for ys
      by (induction ys) auto
    with True show ?thesis
      by (simp add: Cons.IH update_keys)
  next
    case False
    have "filter (\<lambda>k. k \<notin> set (map fst acc) \<and> k \<noteq> f x) ys =
          filter (\<lambda>k. k \<notin> set (map fst acc)) (filter (\<lambda>y. y \<noteq> f x) ys)" for ys
      by (induction ys) auto
    with False show ?thesis
      by (simp add: Cons.IH update_keys)
  qed
qed

lemma find_append_cases:
  "find P (xs @ ys) = (case find P xs of None \<Rightarrow> find P ys | Some x \<Rightarrow> Some x)"
  by (induction xs) auto

lemma map_of_foldl_update:
  "map_of (foldl (\<lambda>result v. AList.update (f v) v result) acc xs) k =
     (case find (\<lambda>v. f v = k) (rev xs) of None \<Rightarrow> map_of acc k | Some v \<Rightarrow> Some v)"
proof (induction xs arbitrary: acc)
  case Nil
  then show ?case by simp
next
  case (Cons x xs)
  show ?case
    by (simp add: Cons.IH update_conv find_append_cases split: option.splits)
qed

lemma find_distinct_key:
  "distinct (map f xs) \<Longrightarrow> x \<in> set xs \<Longrightarrow> find (\<lambda>v. f v = f x) xs = Some x"
  by (induction xs) (auto simp: image_iff)

lemma find_some_member:
  "x \<in> set xs \<Longrightarrow> \<exists>y \<in> set xs. f y = f x \<and> find (\<lambda>v. f v = f x) xs = Some y"
  by (induction xs) auto

lemma update_fresh_key: "k \<notin> fst ` set al \<Longrightarrow> AList.update k v al = al @ [(k, v)]"
  by (induction al) auto

lemma foldl_update_distinct:
  "distinct (map f xs) \<Longrightarrow> set (map f xs) \<inter> fst ` set acc = {}
     \<Longrightarrow> foldl (\<lambda>result v. AList.update (f v) v result) acc xs = acc @ map (\<lambda>v. (f v, v)) xs"
proof (induction xs arbitrary: acc)
  case Nil
  then show ?case by simp
next
  case (Cons x xs)
  from Cons.prems have fresh: "f x \<notin> fst ` set acc" by auto
  from Cons.prems have "set (map f xs) \<inter> fst ` set (acc @ [(f x, x)]) = {}" by auto
  with Cons.prems Cons.IH [of "acc @ [(f x, x)]"] fresh show ?case
    by (simp add: update_fresh_key)
qed

subsection \<open>Dictionaries built by keyBy\<close>

lemma array_index_examples:
  "is_array_index ''0'' \<and> is_array_index ''10'' \<and> is_array_index ''4294967294''
   \<and> \<not> is_array_index ''4294967295'' \<and> \<not> is_array_index ''010''
   \<and> \<not> is_array_index ''u1'' \<and> \<not> is_array_index []"
  by code_simp

lemma insert_index_skip:
  "is_array_index k' \<Longrightarrow> decimal_value k' < decimal_value k
     \<Longrightarrow> insert_index k v ((k', v') # kvs) = (k', v') # insert_index k v kvs"
  by simp

lemma insert_index_here:
  "\<not> (is_array_index k' \<and> decimal_value k' < decimal_value k)
     \<Longrightarrow> insert_index k v ((k', v') # kvs) = (k, v) # (k', v') # kvs"
  by (subst insert_index.simps) (rule if_not_P)

declare insert_index.simps(2) [simp del]

lemma set_insert_index: "set (map fst (insert_index k v kvs)) = insert k (set (map fst kvs))"
proof (induction kvs)
  case Nil
  then show ?case by simp
next
  case (Cons a kvs)
  obtain k' v' where a: "a = (k', v')" by (cases a)
  show ?case
  proof (cases "is_array_index k' \<and> decimal_value k' < decimal_value k")
    case True
    with Cons.IH show ?thesis by (auto simp: a insert_index_skip)
  next
    case False
    then show ?thesis by (auto simp: a insert_index_here)
  qed
qed

lemma map_of_insert_index: "map_of (insert_index k v kvs) = (map_of kvs)(k \<mapsto> v)"
proof (induction kvs)
  case Nil
  then show ?case by simp
next
  case (Cons a kvs)
  obtain k' v' where a: "a = (k', v')" by (cases a)
  show ?case
  proof (cases "is_array_index k' \<and> decimal_value k' < decimal_value k")
    case True
    then have "k' \<noteq> k" by auto
    with True Cons.IH show ?thesis by (auto simp: a insert_index_skip fun_eq_iff)
  next
    case False
    then have "insert_index k v (a # kvs) = (k, v) # (k', v') # kvs"
      by (simp add: a insert_index_here)
    then show ?thesis by (auto simp: a fun_eq_iff)
  qed
qed

lemma distinct_insert_index:
  "distinct (map fst kvs) \<Longrightarrow> k \<notin> set (map fst kvs) \<Longrightarrow> distinct (map fst (insert_index k v kvs))"
proof (induction kvs)
  case Nil
  then show ?case by simp
next
  case (Cons a kvs)
  obtain k' v' where a: "a = (k', v')" by (cases a)
  show ?case
  proof (cases "is_array_index k' \<and> decimal_value k' < decimal_value k")
    case True
    from Cons.prems have "k' \<notin> set (map fst (insert_index k v kvs))"
      by (simp only: set_insert_index) (auto simp: a)
    with True Cons show ?thesis by (simp add: a insert_index_skip)
  next
    case False
    with Cons.prems show ?thesis by (simp add: a insert_index_here)
  qed
qed

lemma others_insert_index:
  "is_array_index k \<Longrightarrow>
     filter (\<lambda>x. \<not> is_array_index x) (map fst (insert_index k v kvs))
       = filter (\<lambda>x. \<not> is_array_index x) (map fst kvs)"
proof (induction kvs)
  case Nil
  then show ?case by simp
next
  case (Cons a kvs)
  obtain k' v' where a: "a = (k', v')" by (cases a)
  show ?case
  proof (cases "is_array_index k' \<and> decimal_value k' < decimal_value k")
    case True
    with Cons show ?thesis by (simp add: a insert_index_skip)
  next
    case False
    with Cons.prems show ?thesis by (simp add: a insert_index_here)
  qed
qed

lemma order_insert_index:
  "is_array_index k \<Longrightarrow> sorted_wrt index_first (map fst kvs)
     \<Longrightarrow> sorted_wrt index_first (map fst (insert_index k v kvs))"
proof (induction kvs)
  case Nil
  then show ?case by simp
next
  case (Cons a kvs)
  obtain k' v' where a: "a = (k', v')" by (cases a)
  from Cons.prems have tl: "sorted_wrt index_first (map fst kvs)"
    and hd: "\<forall>x \<in> set (map fst kvs). index_first k' x"
    by (simp_all add: a)
  show ?case
  proof (cases "is_array_index k' \<and> decimal_value k' < decimal_value k")
    case True
    from True have "index_first k' k" by (simp add: index_first_def)
    with hd have "\<forall>x \<in> set (map fst (insert_index k v kvs)). index_first k' x"
      by (simp only: set_insert_index) simp
    with True Cons.IH [OF Cons.prems(1) tl] show ?thesis
      by (simp add: a insert_index_skip)
  next
    case False
    with Cons.prems(1) have kk': "index_first k k'"
      by (auto simp: index_first_def)
    have "index_first k x" if "x \<in> set (map fst kvs)" for x
    proof -
      from hd that have "index_first k' x" by blast
      with kk' Cons.prems(1) show ?thesis
        by (auto simp: index_first_def)
    qed
    then have all: "\<forall>x \<in> set (map fst kvs). index_first k x" by blast
    have "insert_index k v (a # kvs) = (k, v) # (k', v') # kvs"
      using False by (simp add: a insert_index_here)
    with kk' all hd tl show ?thesis
      by simp
  qed
qed

lemma set_js_assign: "set (map fst (js_assign obj k v)) = insert k (set (map fst obj))"
proof (cases "k \<in> set (map fst obj)")
  case True
  then show ?thesis by (auto simp: js_assign_def update_keys)
next
  case False
  then show ?thesis
    using set_insert_index [of k v obj]
    by (cases "is_array_index k") (simp_all add: js_assign_def)
qed

lemma map_of_js_assign: "map_of (js_assign obj k v) = (map_of obj)(k \<mapsto> v)"
proof (cases "k \<in> set (map fst obj)")
  case True
  then show ?thesis by (simp add: js_assign_def update_conv')
next
  case False
  then have none: "map_of obj k = None" by (simp add: map_of_eq_None_iff)
  show ?thesis
  proof (cases "is_array_index k")
    case True
    with False show ?thesis by (simp add: js_assign_def map_of_insert_index)
  next
    case idx: False
    have "map_of (obj @ [(k, v)]) = (map_of obj)(k \<mapsto> v)"
      using none by (auto simp: fun_eq_iff map_add_def split: option.splits)
    with False idx show ?thesis by (simp add: js_assign_def)
  qed
qed

lemma distinct_js_assign:
  "distinct (map fst obj) \<Longrightarrow> distinct (map fst (js_assign obj k v))"
proof (cases "k \<in> set (map fst obj)")
  case True
  assume "distinct (map fst obj)"
  with True show ?thesis by (simp add: js_assign_def distinct_update)
next
  case False
  assume "distinct (map fst obj)"
  with False show ?thesis
    by (cases "is_array_index k") (simp_all add: js_assign_def distinct_insert_index)
qed

lemma order_js_assign:
  assumes "sorted_wrt index_first (map fst obj)"
  shows "sorted_wrt index_first (map fst (js_assign obj k v))"
proof (cases "k \<in> set (map fst obj)")
  case True
  with assms show ?thesis by (simp add: js_assign_def update_keys)
next
  case False
  show ?thesis
  proof (cases "is_array_index k")
    case True
    with False assms show ?thesis by (simp add: js_assign_def order_insert_index)
  next
    case idx: False
    then have "\<forall>x \<in> set (map fst obj). index_first x k" by (simp add: index_first_def)
    with False idx assms show ?thesis
      by (simp add: js_assign_def sorted_wrt_append)
  qed
qed

lemma others_js_assign:
  "filter (\<lambda>x. \<not> is_array_index x) (map fst (js_assign obj k v))
     = (if k \<in> set (map fst obj) \<or> is_array_index k
        then filter (\<lambda>x. \<not> is_array_index x) (map fst obj)
        else filter (\<lambda>x. \<not> is_array_index x) (map fst obj) @ [k])"
proof (cases "k \<in> set (map fst obj)")
  case True
  then show ?thesis by (simp add: js_assign_def update_keys)
next
  case False
  then show ?thesis
    by (cases "is_array_index k") (simp_all add: js_assign_def others_insert_index)
qed

lemma others_update:
  "filter (\<lambda>x. \<not> is_array_index x) (map fst (AList.update k v obj))
     = (if k \<in> set (map fst obj) \<or> is_array_index k
        then filter (\<lambda>x. \<not> is_array_index x) (map fst obj)
        else filter (\<lambda>x. \<not> is_array_index x) (map fst obj) @ [k])"
  by (simp add: update_keys)


lemma js_assign_plain:
  "\<not> is_array_index k \<Longrightarrow> js_assign obj k v = AList.update k v obj"
proof (cases "k \<in> set (map fst obj)")
  case True
  then show ?thesis by (simp add: js_assign_def)
next
  case False
  assume "\<not> is_array_index k"
  with False update_fresh_key [of k obj v] show ?thesis
    by (simp add: js_assign_def)
qed

lemma foldl_js_assign:
  assumes "map_of a = map_of b" "set (map fst a) = set (map fst b)"
    and "filter (\<lambda>x. \<not> is_array_index x) (map fst a) = filter (\<lambda>x. \<not> is_array_index x) (map fst b)"
    and "distinct (map fst a)" "sorted_wrt index_first (map fst a)"
  shows "map_of (foldl (\<lambda>result v. js_assign result (f v) v) a xs)
           = map_of (foldl (\<lambda>result v. AList.update (f v) v result) b xs)
       \<and> set (map fst (foldl (\<lambda>result v. js_assign result (f v) v) a xs))
           = set (map fst (foldl (\<lambda>result v. AList.update (f v) v result) b xs))
       \<and> filter (\<lambda>x. \<not> is_array_index x) (map fst (foldl (\<lambda>result v. js_assign result (f v) v) a xs))
           = filter (\<lambda>x. \<not> is_array_index x)
               (map fst (foldl (\<lambda>result v. AList.update (f v) v result) b xs))
       \<and> distinct (map fst (foldl (\<lambda>result v. js_assign result (f v) v) a xs))
       \<and> sorted_wrt index_first (map fst (foldl (\<lambda>result v. js_assign result (f v) v) a xs))"
  using assms
proof (induction xs arbitrary: a b)
  case Nil
  then show ?case by simp
next
  case (Cons x xs)
  have 1: "map_of (js_assign a (f x) x) = map_of (AList.update (f x) x b)"
    using Cons.prems(1) by (simp add: map_of_js_assign update_conv')
  have 2: "set (map fst (js_assign a (f x) x)) = set (map fst (AList.update (f x) x b))"
    using Cons.prems(2) by (simp only: set_js_assign) (auto simp: update_keys)
  have 3: "filter (\<lambda>x. \<not> is_array_index x) (map fst (js_assign a (f x) x))
         = filter (\<lambda>x. \<not> is_array_index x) (map fst (AList.update (f x) x b))"
    using Cons.prems(2,3) by (simp only: others_js_assign others_update)
  have 4: "distinct (map fst (js_assign a (f x) x))"
    using Cons.prems(4) by (rule distinct_js_assign)
  have 5: "sorted_wrt index_first (map fst (js_assign a (f x) x))"
    using Cons.prems(5) by (rule order_js_assign)
  from Cons.IH [OF 1 2 3 4 5] show ?case by simp
qed

lemma sorted_index_first_split:
  "sorted_wrt index_first ks \<Longrightarrow>
     ks = filter is_array_index ks @ filter (\<lambda>x. \<not> is_array_index x) ks
     \<and> sorted (map decimal_value (filter is_array_index ks))"
proof (induction ks)
  case Nil
  then show ?case by simp
next
  case (Cons k ks)
  then have ih: "ks = filter is_array_index ks @ filter (\<lambda>x. \<not> is_array_index x) ks"
    "sorted (map decimal_value (filter is_array_index ks))"
    and all: "\<forall>x \<in> set ks. index_first k x"
    by simp_all
  show ?case
  proof (cases "is_array_index k")
    case True
    from all have "\<forall>x \<in> set (filter is_array_index ks). decimal_value k \<le> decimal_value x"
      by (auto simp: index_first_def)
    with True ih show ?thesis by simp
  next
    case False
    with all have none: "\<forall>x \<in> set ks. \<not> is_array_index x"
      by (auto simp: index_first_def)
    then have "filter is_array_index ks = []" "filter (\<lambda>x. \<not> is_array_index x) ks = ks"
      by (simp_all add: filter_empty_conv filter_id_conv)
    with False show ?thesis by simp
  qed
qed

lemma keyBy_lookup: "map_of (keyBy xs f) k = find (\<lambda>v. f v = k) (rev xs)"
proof -
  from foldl_js_assign [of "[]" "[]" f xs]
  have "map_of (keyBy xs f) = map_of (foldl (\<lambda>result v. AList.update (f v) v result) [] xs)"
    by (simp add: keyBy_def)
  then show ?thesis
    by (simp add: map_of_foldl_update split: option.splits)
qed

lemma keyBy_key_set: "set (map fst (keyBy xs f)) = set (map f xs)"
proof -
  from foldl_js_assign [of "[]" "[]" f xs]
  have "set (map fst (keyBy xs f))
      = set (map fst (foldl (\<lambda>result v. AList.update (f v) v result) [] xs))"
    by (simp add: keyBy_def)
  then show ?thesis
    by (simp only: keys_foldl_update) (simp add: set_first_occurrences)
qed

lemma keyBy_distinct_keys: "distinct (map fst (keyBy xs f))"
  using foldl_js_assign [of "[]" "[]" f xs] by (simp add: keyBy_def)

lemma keyBy_others:
  "filter (\<lambda>x. \<not> is_array_index x) (map fst (keyBy xs f))
     = filter (\<lambda>x. \<not> is_array_index x) (first_occurrences (map f xs))"
proof -
  from foldl_js_assign [of "[]" "[]" f xs]
  have "filter (\<lambda>x. \<not> is_array_index x) (map fst (keyBy xs f))
      = filter (\<lambda>x. \<not> is_array_index x)
          (map fst (foldl (\<lambda>result v. AList.update (f v) v result) [] xs))"
    by (simp add: keyBy_def)
  then show ?thesis
    by (simp only: keys_foldl_update) simp
qed

lemma keyBy_order:
  "map fst (keyBy xs f)
     = filter is_array_index (map fst (keyBy xs f))
       @ filter (\<lambda>x. \<not> is_array_index x) (map fst (keyBy xs f))
   \<and> sorted (map decimal_value (filter is_array_index (map fst (keyBy xs f))))"
proof -
  from foldl_js_assign [of "[]" "[]" f xs]
  have "sorted_wrt index_first (map fst (keyBy xs f))"
    by (simp add: keyBy_def)
  then show ?thesis by (rule sorted_index_first_split)
qed

lemma keyBy_plain:
  assumes "\<forall>x \<in> set xs. \<not> is_array_index (f x)"
  shows "keyBy xs f = foldl (\<lambda>result v. AList.update (f v) v result) [] xs"
proof -
  have "foldl (\<lambda>result v. js_assign result (f v) v) acc xs
      = foldl (\<lambda>result v. AList.update (f v) v result) acc xs" for acc
    using assms by (induction xs arbitrary: acc) (simp_all add: js_assign_plain)
  then show ?thesis by (simp add: keyBy_def)
qed

lemma keyBy_plain_keys:
  "\<forall>x \<in> set xs. \<not> is_array_index (f x) \<Longrightarrow> map fst (keyBy xs f) = first_occurrences (map f xs)"
  by (simp add: keyBy_plain keys_foldl_update)

lemma keyBy_plain_distinct:
  "\<forall>x \<in> set xs. \<not> is_array_index (f x) \<Longrightarrow> distinct (map f xs)
     \<Longrightarrow> keyBy xs f = map (\<lambda>v. (f v, v)) xs"
  using foldl_update_distinct [of f xs "[]"] by (simp add: keyBy_plain)

lemma processFeedbackItem_readBy:
  "item_readBy (processFeedbackItem p viewer) = keyBy (readBy p) user_id_path"
  by (simp add: processFeedbackItem_def destructure_def spread_readBy_def Let_def)

subsection \<open>Anonymisation\<close>

text \<open>
  C1. For a post whose \<^verbatim>\<open>anonymous\<close> flag is set, \<^verbatim>\<open>processFeedbackItem\<close> returns
  the author name \<^verbatim>\<open>'Anonymous'\<close> and a null author image when the viewer is not the
  author, and the author name \<^verbatim>\<open>'Anonymous (you)'\<close>, still with a null image, when the
  post's author identifier is the viewer's.
\<close>

theorem processFeedbackItem_anonymous:
  assumes "anonymous p"
  shows "(authorId p \<noteq> viewer \<longrightarrow>
            name (item_author (processFeedbackItem p viewer)) = Some ''Anonymous''
            \<and> image (item_author (processFeedbackItem p viewer)) = None)
       \<and> (authorId p = viewer \<longrightarrow>
            name (item_author (processFeedbackItem p viewer)) = Some ''Anonymous (you)''
            \<and> image (item_author (processFeedbackItem p viewer)) = None)"
  using assms
  by (simp add: processFeedbackItem_def destructure_def spread_readBy_def js_append_def Let_def)

theorem processFeedbackItem_anonymous_witness:
  "anonymous example_payload \<and> authorId example_payload \<noteq> ''u2''
   \<and> authorId example_payload = ''u1''
   \<and> item_author (processFeedbackItem example_payload ''u2'')
       = \<lparr>image = None, name = Some ''Anonymous''\<rparr>
   \<and> item_author (processFeedbackItem example_payload ''u1'')
       = \<lparr>image = None, name = Some ''Anonymous (you)''\<rparr>"
proof -
  have a: "anonymous example_payload" by (simp add: example_payload_def)
  have b: "authorId example_payload = ''u1''" by (simp add: example_payload_def)
  from processFeedbackItem_anonymous [OF a, of "''u2''"]
       processFeedbackItem_anonymous [OF a, of "''u1''"] a b
  show ?thesis by simp
qed


subsection \<open>Selections\<close>

lemma traverse_Inr:
  "traverse f xs = Inr ys \<longleftrightarrow> list_all2 (\<lambda>x y. f x = Inr y) xs ys"
proof (induction xs arbitrary: ys)
  case Nil
  then show ?case by auto
next
  case (Cons x xs)
  show ?case
    by (cases ys) (auto simp: Cons.IH [symmetric] split: sum.splits)
qed

lemma find_user_id: "find_user db i = Some u \<Longrightarrow> user_id u = i"
  by (auto simp: find_user_def find_Some_iff)

lemma select_readBy_user: "select_readBy db m = Inr r \<Longrightarrow> user_id_path r = readPosts_userId m"
  by (auto simp: select_readBy_def user_id_path_def split: option.splits dest: find_user_id)

lemma traverse_select_readBy:
  "traverse (select_readBy db) ms = Inr rs \<Longrightarrow> map user_id_path rs = map readPosts_userId ms"
proof (induction ms arbitrary: rs)
  case Nil
  then show ?case by simp
next
  case (Cons m ms)
  then show ?case
    by (auto split: sum.splits dest: select_readBy_user)
qed

lemma defaultPostSelect_readBy:
  "defaultPostSelect db row = Inr d
     \<Longrightarrow> map user_id_path (readBy d)
         = map readPosts_userId (sort_key readPosts_updatedAt (readBy_of db row))"
  by (auto simp: defaultPostSelect_def split: sum.splits dest: traverse_select_readBy)

lemma withCommentsPostSelect_readBy:
  "withCommentsPostSelect db row = Inr p
     \<Longrightarrow> map user_id_path (readBy p)
         = map readPosts_userId (sort_key readPosts_updatedAt (readBy_of db row))"
  by (auto simp: withCommentsPostSelect_def default_payload.extend_def split: sum.splits
           dest: defaultPostSelect_readBy)

lemma example_select:
  "withCommentsPostSelect example_db (hd (post_table example_db)) = Inr example_payload"
  by code_simp

subsection \<open>The frame of processFeedbackItem\<close>

text \<open>
  C5. The record \<^verbatim>\<open>processFeedbackItem\<close> returns has the type \<open>feedback_item\<close>, which has
  no field for the author identifier, and the identifier reaches the result only through
  the test whether the author is the viewer: replacing it by any identifier that passes
  the test the same way (or by any at all, for a post that is not anonymous) returns the
  same record. Every field but the author and \<^verbatim>\<open>readBy\<close> is returned as it came:
  identifier, title, contents, times, anonymity flag, comment count and the list of
  comments with their authors, also for an anonymous post. \<^verbatim>\<open>readBy\<close> is the list
  re-keyed, and the author of a post that is not anonymous is returned as it came.
\<close>

theorem processFeedbackItem_frame:
  "item_id (processFeedbackItem p viewer) = pid p
   \<and> item_title (processFeedbackItem p viewer) = title p
   \<and> item_content (processFeedbackItem p viewer) = content p
   \<and> item_contentHtml (processFeedbackItem p viewer) = contentHtml p
   \<and> item_createdAt (processFeedbackItem p viewer) = createdAt p
   \<and> item_updatedAt (processFeedbackItem p viewer) = updatedAt p
   \<and> item_anonymous (processFeedbackItem p viewer) = anonymous p
   \<and> item_count_comments (processFeedbackItem p viewer) = count_comments p
   \<and> item_comments (processFeedbackItem p viewer) = comments p
   \<and> item_readBy (processFeedbackItem p viewer) = keyBy (readBy p) user_id_path
   \<and> (\<not> anonymous p \<longrightarrow> item_author (processFeedbackItem p viewer) = author p)
   \<and> (\<forall>a. (\<not> anonymous p \<or> (a = viewer) = (authorId p = viewer)) \<longrightarrow>
          processFeedbackItem (p\<lparr>authorId := a\<rparr>) viewer = processFeedbackItem p viewer)"
  by (simp add: processFeedbackItem_def destructure_def spread_readBy_def Let_def)


theorem processFeedbackItem_frame_witness:
  "\<not> anonymous example_public_payload
   \<and> item_author (processFeedbackItem example_public_payload ''u2'')
       = \<lparr>image = Some ''ada.png'', name = Some ''Ada''\<rparr>
   \<and> anonymous example_payload
   \<and> item_comments (processFeedbackItem example_payload ''u2'') = comments example_payload
   \<and> ((''u3'' = ''u2'') = (authorId example_payload = ''u2''))
   \<and> processFeedbackItem (example_payload\<lparr>authorId := ''u3''\<rparr>) ''u2''
       = processFeedbackItem example_payload ''u2''"
proof -
  have a: "\<not> anonymous example_public_payload"
    by (simp add: example_public_payload_def)
  have b: "author example_public_payload = \<lparr>image = Some ''ada.png'', name = Some ''Ada''\<rparr>"
    by (simp add: example_public_payload_def example_payload_def)
  have c: "anonymous example_payload" "(''u3'' = ''u2'') = (authorId example_payload = ''u2'')"
    by (simp_all add: example_payload_def)
  note t1 = processFeedbackItem_frame [of example_public_payload "''u2''"]
  note t2 = processFeedbackItem_frame [of example_payload "''u2''"]
  from t1 have "\<not> anonymous example_public_payload \<longrightarrow>
      item_author (processFeedbackItem example_public_payload ''u2'') = author example_public_payload"
    by (elim conjE)
  with a b have 1: "item_author (processFeedbackItem example_public_payload ''u2'')
       = \<lparr>image = Some ''ada.png'', name = Some ''Ada''\<rparr>"
    by simp
  from t2
  have 2: "item_comments (processFeedbackItem example_payload ''u2'') = comments example_payload"
    by (elim conjE)
  from t2
  have 3: "\<forall>a. (\<not> anonymous example_payload \<or> (a = ''u2'') = (authorId example_payload = ''u2''))
          \<longrightarrow> processFeedbackItem (example_payload\<lparr>authorId := a\<rparr>) ''u2''
              = processFeedbackItem example_payload ''u2''"
    by (elim conjE)
  have 4: "processFeedbackItem (example_payload\<lparr>authorId := ''u3''\<rparr>) ''u2''
       = processFeedbackItem example_payload ''u2''"
    by (rule 3 [rule_format, of "''u3''"], rule disjI2, rule c(2))
  show ?thesis
    by (intro conjI) (fact a 1 c 2 4)+
qed

subsection \<open>The read-markers, re-keyed\<close>

lemma example_index_keys:
  "map fst (item_readBy (processFeedbackItem example_index_payload ''u1'')) = [''2'', ''10'']"
  by code_simp

lemma example_index_first_occurrences:
  "first_occurrences (map user_id_path (readBy example_index_payload)) = [''10'', ''2'']"
  by code_simp

lemma example_index_differs:
  "map fst (item_readBy (processFeedbackItem example_index_payload ''u1''))
     \<noteq> first_occurrences (map user_id_path (readBy example_index_payload))"
  by code_simp

lemma example_index_lookup:
  "map_of (item_readBy (processFeedbackItem example_index_payload ''u1'')) ''10''
     = Some \<lparr>user = \<lparr>reader_id = ''10'', reader_name = Some ''Ten''\<rparr>\<rparr>"
  by code_simp

text \<open>
  C9, as the code has it. \<^verbatim>\<open>processFeedbackItem\<close> replaces the \<^verbatim>\<open>readBy\<close> list by
  the object \<^verbatim>\<open>keyBy(readBy, 'user.id')\<close>. Its keys are the marking users' identifiers,
  each once; every user identifier of the list is a key, bound to a marker of the list
  made by that user (the marker itself when the identifiers of the list are distinct),
  and nothing else is a key. The keys that are array indices come first, in ascending
  numeric order; the keys that are not come after them, in the order of their first
  occurrence in the list. So when no identifier of the list is an array index, the keys
  are the identifiers in the order of first occurrence, and when the identifiers are
  distinct as well, the object is the list itself, each marker under its user's
  identifier. The list comes from the selection in the ascending order of the markers'
  update times.
\<close>

theorem processFeedbackItem_readBy_keyed:
  "item_readBy (processFeedbackItem p viewer) = keyBy (readBy p) user_id_path
   \<and> set (map fst (item_readBy (processFeedbackItem p viewer)))
       = set (map user_id_path (readBy p))
   \<and> distinct (map fst (item_readBy (processFeedbackItem p viewer)))
   \<and> (\<forall>m \<in> set (readBy p). \<exists>m' \<in> set (readBy p).
         user_id_path m' = user_id_path m
         \<and> map_of (item_readBy (processFeedbackItem p viewer)) (user_id_path m) = Some m')
   \<and> (\<forall>k. k \<notin> set (map user_id_path (readBy p)) \<longrightarrow>
         map_of (item_readBy (processFeedbackItem p viewer)) k = None)
   \<and> (distinct (map user_id_path (readBy p)) \<longrightarrow>
         (\<forall>m \<in> set (readBy p).
            map_of (item_readBy (processFeedbackItem p viewer)) (user_id_path m) = Some m))
   \<and> map fst (item_readBy (processFeedbackItem p viewer))
       = filter is_array_index (map fst (item_readBy (processFeedbackItem p viewer)))
         @ filter (\<lambda>k. \<not> is_array_index k)
             (map fst (item_readBy (processFeedbackItem p viewer)))
   \<and> sorted (map decimal_value
               (filter is_array_index (map fst (item_readBy (processFeedbackItem p viewer)))))
   \<and> filter (\<lambda>k. \<not> is_array_index k) (map fst (item_readBy (processFeedbackItem p viewer)))
       = filter (\<lambda>k. \<not> is_array_index k) (first_occurrences (map user_id_path (readBy p)))
   \<and> ((\<forall>m \<in> set (readBy p). \<not> is_array_index (user_id_path m)) \<longrightarrow>
         map fst (item_readBy (processFeedbackItem p viewer))
           = first_occurrences (map user_id_path (readBy p)))
   \<and> ((\<forall>m \<in> set (readBy p). \<not> is_array_index (user_id_path m))
        \<and> distinct (map user_id_path (readBy p)) \<longrightarrow>
         item_readBy (processFeedbackItem p viewer)
           = map (\<lambda>m. (user_id_path m, m)) (readBy p))
   \<and> (\<forall>db row. withCommentsPostSelect db row = Inr p \<longrightarrow>
         map user_id_path (readBy p)
           = map readPosts_userId (sort_key readPosts_updatedAt (readBy_of db row))
         \<and> sorted (map readPosts_updatedAt (sort_key readPosts_updatedAt (readBy_of db row))))"
proof -
  let ?d = "item_readBy (processFeedbackItem p viewer)"
  have eq: "?d = keyBy (readBy p) user_id_path" by (rule processFeedbackItem_readBy)
  have keys: "set (map fst ?d) = set (map user_id_path (readBy p))"
    by (simp only: eq keyBy_key_set)
  have dist: "distinct (map fst ?d)"
    by (simp only: eq keyBy_distinct_keys)
  have look: "\<forall>m \<in> set (readBy p). \<exists>m' \<in> set (readBy p).
         user_id_path m' = user_id_path m \<and> map_of ?d (user_id_path m) = Some m'"
  proof
    fix m assume "m \<in> set (readBy p)"
    then have "m \<in> set (rev (readBy p))" by simp
    from find_some_member [OF this, of user_id_path]
    show "\<exists>m' \<in> set (readBy p).
         user_id_path m' = user_id_path m \<and> map_of ?d (user_id_path m) = Some m'"
      by (simp add: eq keyBy_lookup)
  qed
  have none: "\<forall>k. k \<notin> set (map user_id_path (readBy p)) \<longrightarrow> map_of ?d k = None"
    by (auto simp: eq keyBy_lookup find_None_iff)
  have own: "distinct (map user_id_path (readBy p)) \<longrightarrow>
         (\<forall>m \<in> set (readBy p). map_of ?d (user_id_path m) = Some m)"
  proof (intro impI ballI)
    fix m assume d: "distinct (map user_id_path (readBy p))" and m: "m \<in> set (readBy p)"
    from d have "distinct (map user_id_path (rev (readBy p)))"
      by (simp add: rev_map [symmetric])
    moreover from m have "m \<in> set (rev (readBy p))" by simp
    ultimately have "find (\<lambda>v. user_id_path v = user_id_path m) (rev (readBy p)) = Some m"
      by (rule find_distinct_key)
    then show "map_of ?d (user_id_path m) = Some m"
      by (simp add: eq keyBy_lookup)
  qed
  note ord = keyBy_order [of "readBy p" user_id_path]
  have split: "map fst ?d = filter is_array_index (map fst ?d)
         @ filter (\<lambda>k. \<not> is_array_index k) (map fst ?d)"
    unfolding eq by (rule ord [THEN conjunct1])
  have srt: "sorted (map decimal_value (filter is_array_index (map fst ?d)))"
    unfolding eq by (rule ord [THEN conjunct2])
  have others: "filter (\<lambda>k. \<not> is_array_index k) (map fst ?d)
       = filter (\<lambda>k. \<not> is_array_index k) (first_occurrences (map user_id_path (readBy p)))"
    by (simp only: eq keyBy_others)
  have plain: "(\<forall>m \<in> set (readBy p). \<not> is_array_index (user_id_path m)) \<longrightarrow>
         map fst ?d = first_occurrences (map user_id_path (readBy p))"
    by (simp add: eq keyBy_plain_keys)
  have one: "(\<forall>m \<in> set (readBy p). \<not> is_array_index (user_id_path m))
        \<and> distinct (map user_id_path (readBy p)) \<longrightarrow>
         ?d = map (\<lambda>m. (user_id_path m, m)) (readBy p)"
    by (simp add: eq keyBy_plain_distinct)
  have sel: "\<forall>db row. withCommentsPostSelect db row = Inr p \<longrightarrow>
         map user_id_path (readBy p)
           = map readPosts_userId (sort_key readPosts_updatedAt (readBy_of db row))
         \<and> sorted (map readPosts_updatedAt (sort_key readPosts_updatedAt (readBy_of db row)))"
    by (simp add: withCommentsPostSelect_readBy)
  show ?thesis
    by (intro conjI) (fact eq keys dist look none own split srt others plain one sel)+
qed

theorem processFeedbackItem_readBy_keyed_witness:
  "withCommentsPostSelect example_db (hd (post_table example_db)) = Inr example_payload
   \<and> \<not> is_array_index ''u2'' \<and> \<not> is_array_index ''u1''
   \<and> distinct (map user_id_path (readBy example_payload))
   \<and> map user_id_path (readBy example_payload) = [''u2'', ''u1'']
   \<and> map readPosts_userId
        (sort_key readPosts_updatedAt (readBy_of example_db (hd (post_table example_db))))
       = [''u2'', ''u1'']
   \<and> map fst (item_readBy (processFeedbackItem example_payload ''u1'')) = [''u2'', ''u1'']
   \<and> map_of (item_readBy (processFeedbackItem example_payload ''u1'')) ''u1''
       = Some \<lparr>user = \<lparr>reader_id = ''u1'', reader_name = Some ''Ada''\<rparr>\<rparr>
   \<and> map_of (item_readBy (processFeedbackItem example_payload ''u1'')) ''u3'' = None"
proof -
  note t = processFeedbackItem_readBy_keyed [of example_payload "''u1''"]
  have rb: "readBy example_payload
      = [\<lparr>user = \<lparr>reader_id = ''u2'', reader_name = Some ''Bob''\<rparr>\<rparr>,
         \<lparr>user = \<lparr>reader_id = ''u1'', reader_name = Some ''Ada''\<rparr>\<rparr>]"
    by (simp add: example_payload_def)
  have ids: "map user_id_path (readBy example_payload) = [''u2'', ''u1'']"
    by (simp add: rb user_id_path_def)
  then have d: "distinct (map user_id_path (readBy example_payload))" by simp
  have nu: "\<not> is_array_index ''u2''" "\<not> is_array_index ''u1''"
    by (simp_all add: is_array_index_def is_digit_def)
  then have ni: "\<forall>m \<in> set (readBy example_payload). \<not> is_array_index (user_id_path m)"
    by (simp add: rb user_id_path_def)
  from t have "(\<forall>m \<in> set (readBy example_payload). \<not> is_array_index (user_id_path m))
        \<and> distinct (map user_id_path (readBy example_payload)) \<longrightarrow>
      item_readBy (processFeedbackItem example_payload ''u1'')
      = map (\<lambda>m. (user_id_path m, m)) (readBy example_payload)"
    by (elim conjE)
  with ni d have full: "item_readBy (processFeedbackItem example_payload ''u1'')
      = map (\<lambda>m. (user_id_path m, m)) (readBy example_payload)"
    by blast
  from t have "\<forall>db row. withCommentsPostSelect db row = Inr example_payload \<longrightarrow>
         map user_id_path (readBy example_payload)
           = map readPosts_userId (sort_key readPosts_updatedAt (readBy_of db row))
         \<and> sorted (map readPosts_updatedAt (sort_key readPosts_updatedAt (readBy_of db row)))"
    by (elim conjE)
  from this [rule_format, OF example_select]
  have srt: "map user_id_path (readBy example_payload)
      = map readPosts_userId
          (sort_key readPosts_updatedAt (readBy_of example_db (hd (post_table example_db))))"
    by (rule conjunct1)
  have keys: "map fst (item_readBy (processFeedbackItem example_payload ''u1'')) = [''u2'', ''u1'']"
    using ids by (simp add: full comp_def)
  have l1: "map_of (item_readBy (processFeedbackItem example_payload ''u1'')) ''u1''
       = Some \<lparr>user = \<lparr>reader_id = ''u1'', reader_name = Some ''Ada''\<rparr>\<rparr>"
    by (simp add: full rb user_id_path_def)
  have l2: "map_of (item_readBy (processFeedbackItem example_payload ''u1'')) ''u3'' = None"
    by (simp add: full rb user_id_path_def)
  from srt ids have srt': "map readPosts_userId
        (sort_key readPosts_updatedAt (readBy_of example_db (hd (post_table example_db))))
       = [''u2'', ''u1'']"
    by (rule trans [OF sym])
  show ?thesis
    by (intro conjI) (fact example_select nu d ids srt' keys l1 l2)+
qed

text \<open>
  The claim as it stands, that the keys keep the order of first occurrence whatever the
  identifiers, fails for readers whose identifiers are the numerals 10 and 2, in this
  order in the list: the object has the key 2 before the key 10. Each identifier is
  still bound to its marker.
\<close>

theorem processFeedbackItem_readBy_order_counterexample:
  "first_occurrences (map user_id_path (readBy example_index_payload)) = [''10'', ''2'']
   \<and> map fst (item_readBy (processFeedbackItem example_index_payload ''u1'')) = [''2'', ''10'']
   \<and> map fst (item_readBy (processFeedbackItem example_index_payload ''u1''))
       \<noteq> first_occurrences (map user_id_path (readBy example_index_payload))
   \<and> map_of (item_readBy (processFeedbackItem example_index_payload ''u1'')) ''10''
       = Some \<lparr>user = \<lparr>reader_id = ''10'', reader_name = Some ''Ten''\<rparr>\<rparr>"
  by (intro conjI)
     (fact example_index_first_occurrences example_index_keys example_index_differs
        example_index_lookup)+

subsection \<open>The filter table\<close>

text \<open>
  C4. For each of the seven filter values the where clause \<^verbatim>\<open>getFilterWhereClause\<close>
  returns holds of a post exactly when: all, always; draft, the post is not published;
  unread, no read-marker of the session user is on the post; replied, the post has a
  comment; repliedByMe, the post has a comment written by the session user; unreplied,
  the post has no comment; unrepliedByMe, the post has no comment written by the session
  user. The seven values are all the values of a filter, and each has its own case.
\<close>

theorem getFilterWhereClause_table:
  "post_matches db (getFilterWhereClause u All) p
   \<and> post_matches db (getFilterWhereClause u Draft) p = (post_published p = False)
   \<and> post_matches db (getFilterWhereClause u Unread) p
       = (\<not> (\<exists>m \<in> set (readPosts_table db).
                readPosts_postId m = post_id p \<and> readPosts_userId m = u))
   \<and> post_matches db (getFilterWhereClause u Replied) p
       = (\<exists>c \<in> set (comment_table db). comment_postId c = post_id p)
   \<and> post_matches db (getFilterWhereClause u RepliedByMe) p
       = (\<exists>c \<in> set (comment_table db). comment_postId c = post_id p \<and> comment_authorId c = u)
   \<and> post_matches db (getFilterWhereClause u Unreplied) p
       = (\<not> (\<exists>c \<in> set (comment_table db). comment_postId c = post_id p))
   \<and> post_matches db (getFilterWhereClause u UnrepliedByMe) p
       = (\<not> (\<exists>c \<in> set (comment_table db).
                comment_postId c = post_id p \<and> comment_authorId c = u))
   \<and> (f = All \<or> f = Draft \<or> f = Unread \<or> f = Replied \<or> f = RepliedByMe
        \<or> f = Unreplied \<or> f = UnrepliedByMe)"
proof -
  have ex: "f = All \<or> f = Draft \<or> f = Unread \<or> f = Replied \<or> f = RepliedByMe
        \<or> f = Unreplied \<or> f = UnrepliedByMe"
    by (cases f) simp_all
  have sem: "post_matches db (getFilterWhereClause u All) p"
    "post_matches db (getFilterWhereClause u Draft) p = (post_published p = False)"
    "post_matches db (getFilterWhereClause u Unread) p
       = (\<not> (\<exists>m \<in> set (readPosts_table db).
                readPosts_postId m = post_id p \<and> readPosts_userId m = u))"
    "post_matches db (getFilterWhereClause u Replied) p
       = (\<exists>c \<in> set (comment_table db). comment_postId c = post_id p)"
    "post_matches db (getFilterWhereClause u RepliedByMe) p
       = (\<exists>c \<in> set (comment_table db). comment_postId c = post_id p \<and> comment_authorId c = u)"
    "post_matches db (getFilterWhereClause u Unreplied) p
       = (\<not> (\<exists>c \<in> set (comment_table db). comment_postId c = post_id p))"
    "post_matches db (getFilterWhereClause u UnrepliedByMe) p
       = (\<not> (\<exists>c \<in> set (comment_table db).
                comment_postId c = post_id p \<and> comment_authorId c = u))"
    by (auto simp: readBy_of_def comments_of_def)
  show ?thesis
    by (intro conjI) (fact sem ex)+
qed

theorem getFilterWhereClause_table_witness:
  "post_matches example_db (getFilterWhereClause ''u1'' Unread) (post_table example_db ! 1)
   \<and> \<not> post_matches example_db (getFilterWhereClause ''u1'' Unread) (post_table example_db ! 0)
   \<and> post_matches example_db (getFilterWhereClause ''u1'' RepliedByMe) (post_table example_db ! 0)
   \<and> post_matches example_db (getFilterWhereClause ''u2'' UnrepliedByMe) (post_table example_db ! 0)"
proof -
  note a = getFilterWhereClause_table [of example_db "''u1''" "post_table example_db ! 1" All]
  note b = getFilterWhereClause_table [of example_db "''u1''" "post_table example_db ! 0" All]
  note c = getFilterWhereClause_table [of example_db "''u2''" "post_table example_db ! 0" All]
  from a have a': "post_matches example_db (getFilterWhereClause ''u1'' Unread) (post_table example_db ! 1)
       = (\<not> (\<exists>m \<in> set (readPosts_table example_db).
                readPosts_postId m = post_id (post_table example_db ! 1) \<and> readPosts_userId m = ''u1''))"
    by (elim conjE)
  from b have b': "post_matches example_db (getFilterWhereClause ''u1'' Unread) (post_table example_db ! 0)
       = (\<not> (\<exists>m \<in> set (readPosts_table example_db).
                readPosts_postId m = post_id (post_table example_db ! 0) \<and> readPosts_userId m = ''u1''))"
    by (elim conjE)
  from b have b'': "post_matches example_db (getFilterWhereClause ''u1'' RepliedByMe) (post_table example_db ! 0)
       = (\<exists>c \<in> set (comment_table example_db).
            comment_postId c = post_id (post_table example_db ! 0) \<and> comment_authorId c = ''u1'')"
    by (elim conjE)
  from c have c': "post_matches example_db (getFilterWhereClause ''u2'' UnrepliedByMe) (post_table example_db ! 0)
       = (\<not> (\<exists>c \<in> set (comment_table example_db).
                comment_postId c = post_id (post_table example_db ! 0) \<and> comment_authorId c = ''u2''))"
    by (elim conjE)
  have 1: "post_matches example_db (getFilterWhereClause ''u1'' Unread) (post_table example_db ! 1)"
    unfolding a' by (simp add: example_db_def)
  have 2: "\<not> post_matches example_db (getFilterWhereClause ''u1'' Unread) (post_table example_db ! 0)"
    unfolding b' by (simp add: example_db_def)
  have 3: "post_matches example_db (getFilterWhereClause ''u1'' RepliedByMe) (post_table example_db ! 0)"
    unfolding b'' by (simp add: example_db_def)
  have 4: "post_matches example_db (getFilterWhereClause ''u2'' UnrepliedByMe) (post_table example_db ! 0)"
    unfolding c' by (simp add: example_db_def)
  show ?thesis
    by (intro conjI) (fact 1 2 3 4)+
qed

subsection \<open>The unread counter\<close>

text \<open>
  C6. \<^verbatim>\<open>unreadCount\<close> returns as \<^verbatim>\<open>totalCount\<close> the number of posts that are not
  hidden, and as \<^verbatim>\<open>unreadCount\<close> that number minus the number of the session user's
  read-markers, on whatever posts. The difference is not clamped: it is negative exactly
  when the user has more read-markers than there are visible posts, as for user \<open>u2\<close> of
  the example store, who has read one visible and two hidden posts.
\<close>

theorem unreadCount_difference:
  "unreadCount (postRouter_unreadCount db u)
     = int (length (filter (\<lambda>p. post_hidden p = False) (post_table db)))
       - int (length (filter (\<lambda>m. readPosts_userId m = u) (readPosts_table db)))
   \<and> totalCount (postRouter_unreadCount db u)
     = int (length (filter (\<lambda>p. post_hidden p = False) (post_table db)))
   \<and> (unreadCount (postRouter_unreadCount db u) < 0)
     = (length (filter (\<lambda>p. post_hidden p = False) (post_table db))
        < length (filter (\<lambda>m. readPosts_userId m = u) (readPosts_table db)))
   \<and> unreadCount (postRouter_unreadCount example_db ''u2'') = - 2"
proof -
  have fm: "filter (readPosts_matches (ReadPosts_userId u)) ms = filter (\<lambda>m. readPosts_userId m = u) ms" for ms u
    by (induction ms) auto
  have fp: "filter (post_matches db (Where_hidden False)) ps = filter (\<lambda>p. post_hidden p = False) ps" for ps db
    by (induction ps) auto
  have ex: "unreadCount (postRouter_unreadCount example_db ''u2'') = - 2"
    by (simp add: postRouter_unreadCount_def post_count_def readPosts_count_def example_db_def)
  have a: "unreadCount (postRouter_unreadCount db u)
     = int (length (filter (\<lambda>p. post_hidden p = False) (post_table db)))
       - int (length (filter (\<lambda>m. readPosts_userId m = u) (readPosts_table db)))"
    by (simp add: postRouter_unreadCount_def post_count_def readPosts_count_def Let_def fm fp)
  have b: "totalCount (postRouter_unreadCount db u)
     = int (length (filter (\<lambda>p. post_hidden p = False) (post_table db)))"
    by (simp add: postRouter_unreadCount_def post_count_def Let_def fp)
  have c: "(unreadCount (postRouter_unreadCount db u) < 0)
     = (length (filter (\<lambda>p. post_hidden p = False) (post_table db))
        < length (filter (\<lambda>m. readPosts_userId m = u) (readPosts_table db)))"
    unfolding a by linarith
  show ?thesis
    by (intro conjI) (fact a b c ex)+
qed

theorem unreadCount_difference_witness:
  "unreadCount (postRouter_unreadCount example_db ''u1'') = 0
   \<and> totalCount (postRouter_unreadCount example_db ''u1'') = 1
   \<and> unreadCount (postRouter_unreadCount example_db ''u2'') < 0"
proof -
  note t = unreadCount_difference [of example_db "''u1''"]
  from t have a: "unreadCount (postRouter_unreadCount example_db ''u1'')
     = int (length (filter (\<lambda>p. post_hidden p = False) (post_table example_db)))
       - int (length (filter (\<lambda>m. readPosts_userId m = ''u1'') (readPosts_table example_db)))"
    by (elim conjE)
  from t have b: "totalCount (postRouter_unreadCount example_db ''u1'')
     = int (length (filter (\<lambda>p. post_hidden p = False) (post_table example_db)))"
    by (elim conjE)
  from t have c: "unreadCount (postRouter_unreadCount example_db ''u2'') = - 2"
    by (elim conjE)
  have 1: "unreadCount (postRouter_unreadCount example_db ''u1'') = 0"
    unfolding a by (simp add: example_db_def)
  have 2: "totalCount (postRouter_unreadCount example_db ''u1'') = 1"
    unfolding b by (simp add: example_db_def)
  have 3: "unreadCount (postRouter_unreadCount example_db ''u2'') < 0"
    unfolding c by simp
  show ?thesis
    by (intro conjI) (fact 1 2 3)+
qed

subsection \<open>Selections succeed where the relations resolve\<close>

lemma find_user_exists:
  "\<exists>u \<in> set (user_table db). user_id u = i \<Longrightarrow> \<exists>u. find_user db i = Some u"
  by (cases "find_user db i") (auto simp: find_user_def find_None_iff)

lemma traverse_total:
  "(\<And>x. x \<in> set xs \<Longrightarrow> \<exists>y. f x = Inr y) \<Longrightarrow> \<exists>ys. traverse f xs = Inr ys"
proof (induction xs)
  case Nil
  then show ?case by simp
next
  case (Cons x xs)
  from Cons.prems obtain y where y: "f x = Inr y" by auto
  from Cons obtain ys where "traverse f xs = Inr ys" by auto
  with y show ?case by simp
qed

lemma select_readBy_total:
  "relations_resolve db \<Longrightarrow> m \<in> set (readPosts_table db) \<Longrightarrow> \<exists>r. select_readBy db m = Inr r"
proof -
  assume "relations_resolve db" "m \<in> set (readPosts_table db)"
  then have "\<exists>u \<in> set (user_table db). user_id u = readPosts_userId m"
    by (simp add: relations_resolve_def)
  from find_user_exists [OF this] show ?thesis
    by (auto simp: select_readBy_def)
qed

lemma select_comment_total:
  "relations_resolve db \<Longrightarrow> c \<in> set (comment_table db) \<Longrightarrow> \<exists>r. select_comment db c = Inr r"
proof -
  assume "relations_resolve db" "c \<in> set (comment_table db)"
  then have "\<exists>u \<in> set (user_table db). user_id u = comment_authorId c"
    by (simp add: relations_resolve_def)
  from find_user_exists [OF this] show ?thesis
    by (auto simp: select_comment_def)
qed

lemma select_author_total:
  "relations_resolve db \<Longrightarrow> p \<in> set (post_table db) \<Longrightarrow> \<exists>r. select_author db (post_authorId p) = Inr r"
proof -
  assume "relations_resolve db" "p \<in> set (post_table db)"
  then have "\<exists>u \<in> set (user_table db). user_id u = post_authorId p"
    by (simp add: relations_resolve_def)
  from find_user_exists [OF this] show ?thesis
    by (auto simp: select_author_def)
qed

lemma defaultPostSelect_total:
  assumes "relations_resolve db" "p \<in> set (post_table db)"
  shows "\<exists>d. defaultPostSelect db p = Inr d \<and> pid d = post_id p"
proof -
  from select_author_total [OF assms] obtain a where a: "select_author db (post_authorId p) = Inr a"
    by blast
  have "\<exists>rb. traverse (select_readBy db) (sort_key readPosts_updatedAt (readBy_of db p)) = Inr rb"
    by (rule traverse_total) (auto simp: readBy_of_def intro: select_readBy_total [OF assms(1)])
  then obtain rb where "traverse (select_readBy db) (sort_key readPosts_updatedAt (readBy_of db p)) = Inr rb"
    by blast
  with a show ?thesis by (simp add: defaultPostSelect_def)
qed

lemma withCommentsPostSelect_pid:
  "withCommentsPostSelect db p = Inr r \<Longrightarrow> pid r = post_id p"
  by (auto simp: withCommentsPostSelect_def defaultPostSelect_def default_payload.extend_def
           split: sum.splits)

lemma withCommentsPostSelect_total:
  assumes "relations_resolve db" "p \<in> set (post_table db)"
  shows "\<exists>r. withCommentsPostSelect db p = Inr r"
proof -
  from defaultPostSelect_total [OF assms] obtain d where d: "defaultPostSelect db p = Inr d"
    by blast
  have "\<exists>cs. traverse (select_comment db) (sort_key comment_createdAt (comments_of db p)) = Inr cs"
    by (rule traverse_total) (auto simp: comments_of_def intro: select_comment_total [OF assms(1)])
  then obtain cs where "traverse (select_comment db) (sort_key comment_createdAt (comments_of db p)) = Inr cs"
    by blast
  with d show ?thesis by (simp add: withCommentsPostSelect_def)
qed




lemma example_relations_resolve: "relations_resolve example_db"
  by (simp add: relations_resolve_def example_db_def)

subsection \<open>byId\<close>




subsection \<open>setRead\<close>

lemma upsert_existing:
  "find (\<lambda>m. readPosts_postId m = i \<and> readPosts_userId m = u) (readPosts_table db) = Some m
     \<Longrightarrow> postRouter_setRead db now u i = Inr (db, m)"
  by (simp add: postRouter_setRead_def readPosts_upsert_def)

lemma setRead_cases:
  assumes "postRouter_setRead db now u i = Inr (db1, m)"
  shows "(db1 = db \<and> find (\<lambda>m. readPosts_postId m = i \<and> readPosts_userId m = u)
                        (readPosts_table db) = Some m)
       \<or> (find (\<lambda>m. readPosts_postId m = i \<and> readPosts_userId m = u) (readPosts_table db) = None
          \<and> m = \<lparr>readPosts_postId = i, readPosts_userId = u, readPosts_updatedAt = now\<rparr>
          \<and> db1 = db\<lparr>readPosts_table := readPosts_table db @ [m]\<rparr>)"
  using assms
  by (auto simp: postRouter_setRead_def readPosts_upsert_def Let_def
           split: option.splits if_splits)

lemma find_marker_None:
  "(find (\<lambda>m. readPosts_postId m = i \<and> readPosts_userId m = u) ms = None)
     = ((i, u) \<notin> set (map (\<lambda>m. (readPosts_postId m, readPosts_userId m)) ms))"
  by (auto simp: find_None_iff image_iff)

lemma find_marker_None_count:
  "find (\<lambda>m. readPosts_postId m = i \<and> readPosts_userId m = u) ms = None
     \<Longrightarrow> filter (\<lambda>m. readPosts_postId m = i \<and> readPosts_userId m = u) ms = []"
  by (auto simp: find_None_iff filter_empty_conv)

lemma find_marker_Some_count:
  "find (\<lambda>m. readPosts_postId m = i \<and> readPosts_userId m = u) ms = Some m
     \<Longrightarrow> 1 \<le> length (filter (\<lambda>m. readPosts_postId m = i \<and> readPosts_userId m = u) ms)"
  by (induction ms) (auto split: if_splits)

lemma find_append_new:
  "find P ms = None \<Longrightarrow> P m \<Longrightarrow> find P (ms @ [m]) = Some m"
  by (induction ms) (auto split: if_splits)

lemma setRead_second_call:
  assumes "postRouter_setRead db now u i = Inr (db1, m)"
  shows "postRouter_setRead db1 now' u i = Inr (db1, m)"
proof -
  from setRead_cases [OF assms] show ?thesis
  proof
    assume "db1 = db \<and> find (\<lambda>m. readPosts_postId m = i \<and> readPosts_userId m = u)
                        (readPosts_table db) = Some m"
    then show ?thesis by (simp add: upsert_existing)
  next
    assume c: "find (\<lambda>m. readPosts_postId m = i \<and> readPosts_userId m = u) (readPosts_table db) = None
          \<and> m = \<lparr>readPosts_postId = i, readPosts_userId = u, readPosts_updatedAt = now\<rparr>
          \<and> db1 = db\<lparr>readPosts_table := readPosts_table db @ [m]\<rparr>"
    then have "find (\<lambda>m. readPosts_postId m = i \<and> readPosts_userId m = u)
                 (readPosts_table db1) = Some m"
      by (simp add: find_append_new)
    then show ?thesis by (rule upsert_existing)
  qed
qed

lemma setRead_count:
  assumes "postRouter_setRead db now u i = Inr (db1, m)"
  shows "1 \<le> marker_count db1 u i"
    and "marker_count db u i \<le> 1 \<Longrightarrow> marker_count db1 u i = 1"
    and "readPosts_postId m = i \<and> readPosts_userId m = u"
proof -
  from setRead_cases [OF assms]
  have a: "1 \<le> marker_count db1 u i \<and> (marker_count db u i \<le> 1 \<longrightarrow> marker_count db1 u i = 1)
       \<and> readPosts_postId m = i \<and> readPosts_userId m = u"
  proof
    assume c: "db1 = db \<and> find (\<lambda>m. readPosts_postId m = i \<and> readPosts_userId m = u)
                        (readPosts_table db) = Some m"
    from c find_marker_Some_count [of i u "readPosts_table db" m]
    have "1 \<le> marker_count db u i" by (simp add: marker_count_def)
    moreover from c have "readPosts_postId m = i \<and> readPosts_userId m = u"
      by (auto simp: find_Some_iff)
    ultimately show ?thesis using c by auto
  next
    assume c: "find (\<lambda>m. readPosts_postId m = i \<and> readPosts_userId m = u) (readPosts_table db) = None
          \<and> m = \<lparr>readPosts_postId = i, readPosts_userId = u, readPosts_updatedAt = now\<rparr>
          \<and> db1 = db\<lparr>readPosts_table := readPosts_table db @ [m]\<rparr>"
    with find_marker_None_count [of i u "readPosts_table db"]
    show ?thesis by (simp add: marker_count_def)
  qed
  from a show "1 \<le> marker_count db1 u i" by blast
  from a show "marker_count db u i \<le> 1 \<Longrightarrow> marker_count db1 u i = 1" by blast
  from a show "readPosts_postId m = i \<and> readPosts_userId m = u" by blast
qed

lemma setRead_keeps_unique:
  assumes "postRouter_setRead db now u i = Inr (db1, m)" "markers_unique db"
  shows "markers_unique db1"
proof -
  from setRead_cases [OF assms(1)] show ?thesis
  proof
    assume "db1 = db \<and> find (\<lambda>m. readPosts_postId m = i \<and> readPosts_userId m = u)
                        (readPosts_table db) = Some m"
    with assms(2) show ?thesis by simp
  next
    assume c: "find (\<lambda>m. readPosts_postId m = i \<and> readPosts_userId m = u) (readPosts_table db) = None
          \<and> m = \<lparr>readPosts_postId = i, readPosts_userId = u, readPosts_updatedAt = now\<rparr>
          \<and> db1 = db\<lparr>readPosts_table := readPosts_table db @ [m]\<rparr>"
    then have "find (\<lambda>m. readPosts_postId m = i \<and> readPosts_userId m = u) (readPosts_table db) = None"
      by (rule conjunct1)
    then have "(i, u) \<notin> set (map (\<lambda>m. (readPosts_postId m, readPosts_userId m)) (readPosts_table db))"
      by (simp add: find_marker_None)
    with c assms(2) show ?thesis by (simp add: markers_unique_def)
  qed
qed

lemma reachable_keeps_unique:
  "setRead_reachable db0 db \<Longrightarrow> markers_unique db0 \<Longrightarrow> markers_unique db"
  by (induction rule: setRead_reachable.induct) (auto intro: setRead_keeps_unique)

lemma distinct_key_count:
  "distinct (map f ms) \<Longrightarrow> length (filter (\<lambda>m. f m = k) ms) \<le> 1"
proof (induction ms)
  case Nil
  then show ?case by simp
next
  case (Cons a ms)
  show ?case
  proof (cases "f a = k")
    case True
    with Cons.prems have "filter (\<lambda>m. f m = k) ms = []"
      by (auto simp: filter_empty_conv image_iff)
    with True show ?thesis by simp
  next
    case False
    with Cons show ?thesis by simp
  qed
qed

lemma unique_count: "markers_unique db \<Longrightarrow> marker_count db u i \<le> 1"
  using distinct_key_count [of "\<lambda>m. (readPosts_postId m, readPosts_userId m)" "readPosts_table db" "(i, u)"]
  by (simp add: markers_unique_def marker_count_def)

text \<open>
  C7. A call of \<^verbatim>\<open>setRead\<close> that succeeds leaves a read-marker of the session user on
  the post and returns it; a second call for the same user and post, at whatever time,
  writes nothing and returns the same marker. In a store with at most one marker per pair
  of user and post the pair then has exactly one marker, and the store still has at most
  one marker per pair; so has every store reached through calls of \<^verbatim>\<open>setRead\<close> from a
  store that has, an empty read-marker table among them.
\<close>

theorem setRead_idempotent:
  "(postRouter_setRead db now u i = Inr (db1, m) \<longrightarrow>
      postRouter_setRead db1 now' u i = Inr (db1, m)
      \<and> readPosts_postId m = i \<and> readPosts_userId m = u
      \<and> 1 \<le> marker_count db1 u i
      \<and> (markers_unique db \<longrightarrow> marker_count db1 u i = 1 \<and> markers_unique db1))
   \<and> (markers_unique db0 \<and> setRead_reachable db0 db' \<longrightarrow>
        markers_unique db' \<and> marker_count db' u i \<le> 1)
   \<and> (readPosts_table db0 = [] \<longrightarrow> markers_unique db0)"
proof -
  have 1: "postRouter_setRead db now u i = Inr (db1, m) \<longrightarrow>
      postRouter_setRead db1 now' u i = Inr (db1, m)
      \<and> readPosts_postId m = i \<and> readPosts_userId m = u
      \<and> 1 \<le> marker_count db1 u i
      \<and> (markers_unique db \<longrightarrow> marker_count db1 u i = 1 \<and> markers_unique db1)"
  proof
    assume a: "postRouter_setRead db now u i = Inr (db1, m)"
    have "markers_unique db \<longrightarrow> marker_count db1 u i = 1 \<and> markers_unique db1"
      using setRead_count(2) [OF a] unique_count [of db u i] setRead_keeps_unique [OF a]
      by blast
    with setRead_second_call [OF a, of now'] setRead_count(1, 3) [OF a]
    show "postRouter_setRead db1 now' u i = Inr (db1, m)
      \<and> readPosts_postId m = i \<and> readPosts_userId m = u
      \<and> 1 \<le> marker_count db1 u i
      \<and> (markers_unique db \<longrightarrow> marker_count db1 u i = 1 \<and> markers_unique db1)"
      by blast
  qed
  have 2: "markers_unique db0 \<and> setRead_reachable db0 db' \<longrightarrow>
        markers_unique db' \<and> marker_count db' u i \<le> 1"
    using reachable_keeps_unique [of db0 db'] unique_count [of db' u i] by blast
  have 3: "readPosts_table db0 = [] \<longrightarrow> markers_unique db0"
    by (simp add: markers_unique_def)
  show ?thesis
    by (intro conjI) (fact 1 2 3)+
qed

theorem setRead_idempotent_witness:
  "markers_unique example_db
   \<and> postRouter_setRead example_db 40 ''u1'' ''p2'' = Inr (example_db_read, example_marker)
   \<and> postRouter_setRead example_db_read 50 ''u1'' ''p2'' = Inr (example_db_read, example_marker)
   \<and> marker_count example_db_read ''u1'' ''p2'' = 1
   \<and> setRead_reachable example_db example_db_read
   \<and> markers_unique example_db_read"
proof -
  have u: "markers_unique example_db"
    by (simp add: markers_unique_def example_db_def)
  have first: "postRouter_setRead example_db 40 ''u1'' ''p2'' = Inr (example_db_read, example_marker)"
    by (simp add: postRouter_setRead_def readPosts_upsert_def example_db_read_def
          example_marker_def example_db_def Let_def)
  have r: "setRead_reachable example_db example_db_read"
    by (rule reach_setRead [OF reach_start first])
  note t = setRead_idempotent [of example_db 40 "''u1''" "''p2''" example_db_read example_marker 50
             example_db example_db_read]
  from t have "postRouter_setRead example_db 40 ''u1'' ''p2'' = Inr (example_db_read, example_marker) \<longrightarrow>
      postRouter_setRead example_db_read 50 ''u1'' ''p2'' = Inr (example_db_read, example_marker)
      \<and> readPosts_postId example_marker = ''p2'' \<and> readPosts_userId example_marker = ''u1''
      \<and> 1 \<le> marker_count example_db_read ''u1'' ''p2''
      \<and> (markers_unique example_db \<longrightarrow>
            marker_count example_db_read ''u1'' ''p2'' = 1 \<and> markers_unique example_db_read)"
    by (elim conjE)
  with first u have second: "postRouter_setRead example_db_read 50 ''u1'' ''p2''
        = Inr (example_db_read, example_marker)"
    and one: "marker_count example_db_read ''u1'' ''p2'' = 1"
    by blast+
  from t have "markers_unique example_db \<and> setRead_reachable example_db example_db_read \<longrightarrow>
        markers_unique example_db_read \<and> marker_count example_db_read ''u1'' ''p2'' \<le> 1"
    by (elim conjE)
  with u r have u': "markers_unique example_db_read" by blast
  show ?thesis
    by (intro conjI) (fact u first second one r u')+
qed

subsection \<open>add\<close>

lemma defaultPostSelect_fields:
  "defaultPostSelect db p = Inr d \<Longrightarrow>
     pid d = post_id p \<and> title d = post_title p \<and> content d = post_content p
     \<and> contentHtml d = post_contentHtml p \<and> createdAt d = post_createdAt p
     \<and> updatedAt d = post_updatedAt p \<and> anonymous d = post_anonymous p
     \<and> authorId d = post_authorId p
     \<and> count_comments d = length (comments_of db p)
     \<and> select_author db (post_authorId p) = Inr (author d)"
  by (auto simp: defaultPostSelect_def split: sum.splits)

lemma select_author_user:
  "select_author db i = Inr a \<Longrightarrow>
     \<exists>usr \<in> set (user_table db). user_id usr = i \<and> find_user db i = Some usr
        \<and> a = \<lparr>image = user_image usr, name = user_name usr\<rparr>"
  by (auto simp: select_author_def find_user_def find_Some_iff split: option.splits)

lemma add_cases:
  assumes "postRouter_add db g u input = Inr (db', post)"
  shows "(\<exists>usr. find_user db u = Some usr)
       \<and> \<not> (\<exists>p \<in> set (post_table db). post_id p = generated_id g)
       \<and> db' = db\<lparr>post_table := post_table db @ [new_post_row g input u]\<rparr>
       \<and> defaultPostSelect db' (new_post_row g input u) = Inr post"
  using assms
  by (auto simp: postRouter_add_def post_create_def Let_def
           split: option.splits if_splits sum.splits)

lemma add_succeeds:
  assumes "find_user db u = Some usr"
    and "\<not> (\<exists>p \<in> set (post_table db). post_id p = generated_id g)"
    and "defaultPostSelect (db\<lparr>post_table := post_table db @ [new_post_row g input u]\<rparr>)
           (new_post_row g input u) = Inr post"
  shows "postRouter_add db g u input
       = Inr (db\<lparr>post_table := post_table db @ [new_post_row g input u]\<rparr>, post)"
  using assms
  by (simp add: postRouter_add_def post_create_def Let_def)

lemma relations_resolve_add:
  assumes "relations_resolve db" "\<exists>usr \<in> set (user_table db). user_id usr = post_authorId row"
  shows "relations_resolve (db\<lparr>post_table := post_table db @ [row]\<rparr>)"
  using assms by (auto simp: relations_resolve_def)

text \<open>
  C10. When \<^verbatim>\<open>add\<close> succeeds it has appended one post row, owned by the session user,
  and returns what the store selects for that row under \<^verbatim>\<open>defaultPostSelect\<close>, as it
  is: the author identifier is the session user's, the author's name and image are those
  of the session user's row in the user table, and the anonymity flag is the input's (the
  column default when the input has none), so an anonymous post comes back with its
  author. The returned record is a \<open>default_payload\<close>: it has the number of the post's
  comments and no field for the comments. \<^verbatim>\<open>add\<close> succeeds when the session user
  exists, the generated identifier is new and the users the rows refer to exist.
\<close>

theorem add_returns_default_projection:
  "(postRouter_add db g u input = Inr (db', post) \<longrightarrow>
      authorId post = u
      \<and> (\<exists>usr \<in> set (user_table db). user_id usr = u \<and> find_user db u = Some usr
            \<and> author post = \<lparr>image = user_image usr, name = user_name usr\<rparr>)
      \<and> anonymous post
          = (case add_anonymous input of None \<Rightarrow> default_anonymous g | Some b \<Rightarrow> b)
      \<and> pid post = generated_id g \<and> title post = add_title input
      \<and> content post = add_content input \<and> contentHtml post = add_contentHtml input
      \<and> createdAt post = generated_now g \<and> updatedAt post = generated_now g
      \<and> (\<exists>row. post_table db' = post_table db @ [row]
            \<and> post_id row = generated_id g \<and> post_authorId row = u
            \<and> defaultPostSelect db' row = Inr post
            \<and> count_comments post = length (comments_of db' row)))
   \<and> ((\<exists>usr \<in> set (user_table db). user_id usr = u)
        \<and> \<not> (\<exists>p \<in> set (post_table db). post_id p = generated_id g)
        \<and> relations_resolve db \<longrightarrow>
        (\<exists>db'' post'. postRouter_add db g u input = Inr (db'', post')))"
proof -
  let ?row = "new_post_row g input u"
  let ?db = "db\<lparr>post_table := post_table db @ [?row]\<rparr>"
  have 1: "postRouter_add db g u input = Inr (db', post) \<longrightarrow>
      authorId post = u
      \<and> (\<exists>usr \<in> set (user_table db). user_id usr = u \<and> find_user db u = Some usr
            \<and> author post = \<lparr>image = user_image usr, name = user_name usr\<rparr>)
      \<and> anonymous post
          = (case add_anonymous input of None \<Rightarrow> default_anonymous g | Some b \<Rightarrow> b)
      \<and> pid post = generated_id g \<and> title post = add_title input
      \<and> content post = add_content input \<and> contentHtml post = add_contentHtml input
      \<and> createdAt post = generated_now g \<and> updatedAt post = generated_now g
      \<and> (\<exists>row. post_table db' = post_table db @ [row]
            \<and> post_id row = generated_id g \<and> post_authorId row = u
            \<and> defaultPostSelect db' row = Inr post
            \<and> count_comments post = length (comments_of db' row))"
  proof
    assume a: "postRouter_add db g u input = Inr (db', post)"
    note c = add_cases [OF a]
    from c have db': "db' = ?db" and sel: "defaultPostSelect db' ?row = Inr post" by blast+
    note f = defaultPostSelect_fields [OF sel]
    from f have "select_author db' u = Inr (author post)"
      by (simp add: new_post_row_def)
    from select_author_user [OF this]
    have usr: "\<exists>usr \<in> set (user_table db). user_id usr = u \<and> find_user db u = Some usr
            \<and> author post = \<lparr>image = user_image usr, name = user_name usr\<rparr>"
      by (simp add: db' find_user_def)
    have row: "\<exists>row. post_table db' = post_table db @ [row]
            \<and> post_id row = generated_id g \<and> post_authorId row = u
            \<and> defaultPostSelect db' row = Inr post
            \<and> count_comments post = length (comments_of db' row)"
    proof (intro exI conjI)
      show "post_table db' = post_table db @ [?row]" by (simp add: db')
      show "post_id ?row = generated_id g" by (simp add: new_post_row_def)
      show "post_authorId ?row = u" by (simp add: new_post_row_def)
      show "defaultPostSelect db' ?row = Inr post" by (rule sel)
      show "count_comments post = length (comments_of db' ?row)" using f by blast
    qed
    from f have flds: "authorId post = u"
      "anonymous post = (case add_anonymous input of None \<Rightarrow> default_anonymous g | Some b \<Rightarrow> b)"
      "pid post = generated_id g" "title post = add_title input"
      "content post = add_content input" "contentHtml post = add_contentHtml input"
      "createdAt post = generated_now g" "updatedAt post = generated_now g"
      by (simp_all add: new_post_row_def)
    show "authorId post = u
      \<and> (\<exists>usr \<in> set (user_table db). user_id usr = u \<and> find_user db u = Some usr
            \<and> author post = \<lparr>image = user_image usr, name = user_name usr\<rparr>)
      \<and> anonymous post
          = (case add_anonymous input of None \<Rightarrow> default_anonymous g | Some b \<Rightarrow> b)
      \<and> pid post = generated_id g \<and> title post = add_title input
      \<and> content post = add_content input \<and> contentHtml post = add_contentHtml input
      \<and> createdAt post = generated_now g \<and> updatedAt post = generated_now g
      \<and> (\<exists>row. post_table db' = post_table db @ [row]
            \<and> post_id row = generated_id g \<and> post_authorId row = u
            \<and> defaultPostSelect db' row = Inr post
            \<and> count_comments post = length (comments_of db' row))"
      by (intro conjI) (fact flds usr row)+
  qed
  have 2: "(\<exists>usr \<in> set (user_table db). user_id usr = u)
        \<and> \<not> (\<exists>p \<in> set (post_table db). post_id p = generated_id g)
        \<and> relations_resolve db \<longrightarrow>
        (\<exists>db'' post'. postRouter_add db g u input = Inr (db'', post'))"
  proof
    assume h: "(\<exists>usr \<in> set (user_table db). user_id usr = u)
        \<and> \<not> (\<exists>p \<in> set (post_table db). post_id p = generated_id g)
        \<and> relations_resolve db"
    then have ex: "\<exists>usr \<in> set (user_table db). user_id usr = u" by blast
    from find_user_exists [OF ex] obtain usr where usr: "find_user db u = Some usr" by blast
    from h ex have "relations_resolve ?db"
      by (intro relations_resolve_add) (simp_all add: new_post_row_def)
    from defaultPostSelect_total [OF this, of ?row]
    obtain post' where "defaultPostSelect ?db ?row = Inr post'" by auto
    from add_succeeds [OF usr _ this] h
    show "\<exists>db'' post'. postRouter_add db g u input = Inr (db'', post')" by blast
  qed
  show ?thesis
    by (intro conjI) (fact 1 2)+
qed


theorem add_returns_default_projection_witness:
  "(\<exists>usr \<in> set (user_table example_db). user_id usr = ''u1'')
   \<and> \<not> (\<exists>p \<in> set (post_table example_db). post_id p = generated_id example_generated)
   \<and> relations_resolve example_db
   \<and> add_anonymous example_input = Some True
   \<and> (\<exists>db' post. postRouter_add example_db example_generated ''u1'' example_input = Inr (db', post)
         \<and> authorId post = ''u1'' \<and> anonymous post
         \<and> author post = \<lparr>image = Some ''ada.png'', name = Some ''Ada''\<rparr>)"
proof -
  have h1: "\<exists>usr \<in> set (user_table example_db). user_id usr = ''u1''"
    by (simp add: example_db_def)
  have h2: "\<not> (\<exists>p \<in> set (post_table example_db). post_id p = generated_id example_generated)"
    by (simp add: example_db_def example_generated_def)
  have h3: "add_anonymous example_input = Some True"
    by (simp add: example_input_def)
  have "(\<exists>usr \<in> set (user_table example_db). user_id usr = ''u1'')
        \<and> \<not> (\<exists>p \<in> set (post_table example_db). post_id p = generated_id example_generated)
        \<and> relations_resolve example_db \<longrightarrow>
        (\<exists>db'' post'. postRouter_add example_db example_generated ''u1'' example_input
           = Inr (db'', post'))"
    by (rule add_returns_default_projection
               [of example_db example_generated "''u1''" example_input, THEN conjunct2])
  with h1 h2 example_relations_resolve
  obtain db' post
    where a: "postRouter_add example_db example_generated ''u1'' example_input = Inr (db', post)"
    by blast
  have "postRouter_add example_db example_generated ''u1'' example_input = Inr (db', post) \<longrightarrow>
      authorId post = ''u1''
      \<and> (\<exists>usr \<in> set (user_table example_db). user_id usr = ''u1''
            \<and> find_user example_db ''u1'' = Some usr
            \<and> author post = \<lparr>image = user_image usr, name = user_name usr\<rparr>)
      \<and> anonymous post
          = (case add_anonymous example_input of
               None \<Rightarrow> default_anonymous example_generated | Some b \<Rightarrow> b)
      \<and> pid post = generated_id example_generated \<and> title post = add_title example_input
      \<and> content post = add_content example_input
      \<and> contentHtml post = add_contentHtml example_input
      \<and> createdAt post = generated_now example_generated
      \<and> updatedAt post = generated_now example_generated
      \<and> (\<exists>row. post_table db' = post_table example_db @ [row]
            \<and> post_id row = generated_id example_generated \<and> post_authorId row = ''u1''
            \<and> defaultPostSelect db' row = Inr post
            \<and> count_comments post = length (comments_of db' row))"
    by (rule add_returns_default_projection
               [of example_db example_generated "''u1''" example_input db' post, THEN conjunct1])
  with a have b: "authorId post = ''u1''"
    and c: "\<exists>usr \<in> set (user_table example_db). user_id usr = ''u1''
            \<and> find_user example_db ''u1'' = Some usr
            \<and> author post = \<lparr>image = user_image usr, name = user_name usr\<rparr>"
    and d: "anonymous post
          = (case add_anonymous example_input of
               None \<Rightarrow> default_anonymous example_generated | Some b \<Rightarrow> b)"
    by blast+
  from d h3 have d': "anonymous post" by simp
  from c have e: "author post = \<lparr>image = Some ''ada.png'', name = Some ''Ada''\<rparr>"
    by (auto simp: example_db_def)
  from a b d' e
  have "\<exists>db' post. postRouter_add example_db example_generated ''u1'' example_input = Inr (db', post)
         \<and> authorId post = ''u1'' \<and> anonymous post
         \<and> author post = \<lparr>image = Some ''ada.png'', name = Some ''Ada''\<rparr>"
    by blast
  with h1 h2 example_relations_resolve h3 show ?thesis
    by (intro conjI)
qed

subsection \<open>Pages of list\<close>

lemma traverse_pids:
  "traverse (withCommentsPostSelect db) rows = Inr fetched \<Longrightarrow> map pid fetched = map post_id rows"
proof (induction rows arbitrary: fetched)
  case Nil
  then show ?case by simp
next
  case (Cons r rows)
  then show ?case
    by (auto split: sum.splits dest: withCommentsPostSelect_pid)
qed

lemma traverse_rows_total:
  assumes "relations_resolve db" "set rows \<subseteq> set (post_table db)"
  shows "\<exists>fetched. traverse (withCommentsPostSelect db) rows = Inr fetched"
  using assms by (intro traverse_total withCommentsPostSelect_total) auto

lemma set_from_cursor: "set (from_cursor c xs) \<subseteq> set xs"
  by (auto simp: from_cursor_def split: option.splits dest: set_dropWhileD)

lemma set_orderBy: "set (orderBy_createdAt ord xs) = set xs"
  by (cases ord) (simp_all add: orderBy_createdAt_def)

lemma set_post_rows: "set (post_rows db w ord c n) \<subseteq> set (post_table db)"
proof -
  have "set (take_rows n ys) \<subseteq> set ys" for ys :: "Post list"
    by (auto simp: take_rows_def split: option.splits dest: in_set_takeD)
  then have "set (post_rows db w ord c n)
      \<subseteq> set (from_cursor c (orderBy_createdAt ord (filter (post_matches db w) (post_table db))))"
    by (simp add: post_rows_def)
  also have "\<dots> \<subseteq> set (orderBy_createdAt ord (filter (post_matches db w) (post_table db)))"
    by (rule set_from_cursor)
  also have "\<dots> \<subseteq> set (post_table db)"
    by (simp add: set_orderBy)
  finally show ?thesis .
qed

lemma list_unfold:
  "postRouter_list db u input =
     (case traverse (withCommentsPostSelect db)
             (post_rows db (getFilterWhereClause u (input_filter input)) (input_order input)
                (cursor_argument (input_cursor input))
                (Some ((case input_limit input of None \<Rightarrow> 50 | Some l \<Rightarrow> l) + 1))) of
        Inl e \<Rightarrow> Inl e
      | Inr fetched \<Rightarrow>
          Inr \<lparr>items = rev (map (\<lambda>item. processFeedbackItem item u)
                          (if (case input_limit input of None \<Rightarrow> 50 | Some l \<Rightarrow> l) < length fetched
                           then butlast fetched else fetched)),
               nextCursor =
                 (if (case input_limit input of None \<Rightarrow> 50 | Some l \<Rightarrow> l) < length fetched
                  then Some (pid (last fetched)) else None)\<rparr>)"
  by (simp add: postRouter_list_def post_findMany_def Let_def split: sum.splits)


lemma traverse_map_select:
  assumes "relations_resolve db" "set rows \<subseteq> set (post_table db)"
  shows "traverse (withCommentsPostSelect db) rows
       = Inr (map (\<lambda>p. projr (withCommentsPostSelect db p)) rows)"
  using assms(2)
proof (induction rows)
  case Nil
  then show ?case by simp
next
  case (Cons r rows)
  then have "r \<in> set (post_table db)" by simp
  from withCommentsPostSelect_total [OF assms(1) this]
  obtain x where "withCommentsPostSelect db r = Inr x" by blast
  with Cons show ?case by simp
qed

lemma select_projr_pid:
  assumes "relations_resolve db" "p \<in> set (post_table db)"
  shows "pid (projr (withCommentsPostSelect db p)) = post_id p"
proof -
  from withCommentsPostSelect_total [OF assms]
  obtain x where x: "withCommentsPostSelect db p = Inr x" by blast
  with withCommentsPostSelect_pid [OF x] show ?thesis by simp
qed

lemma processFeedbackItem_id: "item_id (processFeedbackItem p u) = pid p"
  by (simp add: processFeedbackItem_def destructure_def spread_readBy_def Let_def)

lemma set_matching_posts: "set (matching_posts db u f ord) \<subseteq> set (post_table db)"
  by (auto simp: matching_posts_def set_orderBy)

lemma mset_orderBy: "mset (orderBy_createdAt ord xs) = mset xs"
  by (cases ord) (simp_all add: orderBy_createdAt_def)

lemma distinct_matching_posts:
  assumes "distinct (map post_id (post_table db))"
  shows "distinct (map post_id (matching_posts db u f ord))"
proof -
  let ?fs = "filter (post_matches db (getFilterWhereClause u f)) (post_table db)"
  from assms have d: "distinct (map post_id ?fs)" by (rule distinct_map_filter)
  have eq: "mset (map post_id (matching_posts db u f ord)) = mset (map post_id ?fs)"
    by (simp add: matching_posts_def mset_orderBy)
  from mset_eq_imp_distinct_iff [OF eq] d show ?thesis by blast
qed

lemma cursor_suffix:
  assumes "distinct (map post_id (pre @ ys))" "ys \<noteq> []" "post_id (hd ys) \<noteq> []"
  shows "from_cursor (cursor_argument (Some (post_id (hd ys)))) (pre @ ys) = ys"
proof -
  from assms(2) obtain y ys' where ys: "ys = y # ys'" by (cases ys) auto
  from assms(1) have "set (map post_id pre) \<inter> set (map post_id ys) = {}"
    by simp
  moreover have "post_id y \<in> set (map post_id ys)" by (simp add: ys)
  ultimately have "\<And>p. p \<in> set pre \<Longrightarrow> post_id p \<noteq> post_id y"
    by (metis disjoint_iff imageI set_map)
  then have "dropWhile (\<lambda>p. post_id p \<noteq> post_id y) (pre @ ys)
           = dropWhile (\<lambda>p. post_id p \<noteq> post_id y) ys"
    by (simp add: dropWhile_append2)
  with ys assms(3) show ?thesis
    by (simp add: from_cursor_def cursor_argument_def)
qed

lemma list_page:
  assumes rr: "relations_resolve db"
    and cur: "from_cursor (cursor_argument c) (matching_posts db u f ord) = ys"
  shows "postRouter_list db u
           \<lparr>input_filter = f, input_order = ord, input_limit = lim, input_cursor = c\<rparr>
       = Inr \<lparr>items = rev (map (\<lambda>p. processFeedbackItem (projr (withCommentsPostSelect db p)) u)
                              (take (page_limit lim) ys)),
              nextCursor = (if page_limit lim < length ys
                            then Some (post_id (ys ! page_limit lim)) else None)\<rparr>"
proof -
  let ?l = "page_limit lim"
  let ?sel = "\<lambda>p. projr (withCommentsPostSelect db p)"
  let ?rows = "take (?l + 1) ys"
  have sub: "set ys \<subseteq> set (post_table db)"
    using set_from_cursor [of "cursor_argument c" "matching_posts db u f ord"]
          set_matching_posts [of db u f ord] cur by auto
  have rows: "post_rows db (getFilterWhereClause u f) ord (cursor_argument c) (Some (?l + 1)) = ?rows"
    using cur by (simp add: post_rows_def take_rows_def matching_posts_def)
  have "set ?rows \<subseteq> set (post_table db)"
    using sub by (auto dest: in_set_takeD)
  from traverse_map_select [OF rr this]
  have tr: "traverse (withCommentsPostSelect db) ?rows = Inr (map ?sel ?rows)" .
  have unf: "postRouter_list db u
           \<lparr>input_filter = f, input_order = ord, input_limit = lim, input_cursor = c\<rparr>
       = Inr \<lparr>items = rev (map (\<lambda>item. processFeedbackItem item u)
                          (if ?l < length (map ?sel ?rows)
                           then butlast (map ?sel ?rows) else map ?sel ?rows)),
               nextCursor =
                 (if ?l < length (map ?sel ?rows)
                  then Some (pid (last (map ?sel ?rows))) else None)\<rparr>"
    using rows tr by (simp add: list_unfold page_limit_def)
  show ?thesis
  proof (cases "?l < length ys")
    case True
    then have len: "length ?rows = ?l + 1" by simp
    have bl: "butlast ?rows = take ?l ys"
      using True by (simp add: butlast_take)
    have ne: "?rows \<noteq> []" using len by auto
    have "last ?rows = ?rows ! ?l"
      using len ne by (simp add: last_conv_nth)
    then have la: "last ?rows = ys ! ?l" by simp
    have "ys ! ?l \<in> set (post_table db)"
      using True sub by (auto simp: subset_iff)
    from select_projr_pid [OF rr this]
    have pidl: "pid (?sel (ys ! ?l)) = post_id (ys ! ?l)" .
    have "butlast (map ?sel ?rows) = map ?sel (take ?l ys)"
      by (simp only: map_butlast [symmetric] bl)
    moreover have "last (map ?sel ?rows) = ?sel (last ?rows)"
      using ne by (rule last_map)
    ultimately show ?thesis
      using True pidl la by (simp add: unf comp_def del: take_map)
  next
    case False
    then have "?rows = ys" "take ?l ys = ys" by simp_all
    with False show ?thesis
      by (simp add: unf comp_def)
  qed
qed


lemma fetch_pages_Suc:
  "fetch_pages (Suc n) db u f ord lim c =
     (case postRouter_list db u
             \<lparr>input_filter = f, input_order = ord, input_limit = lim, input_cursor = c\<rparr> of
        Inl e \<Rightarrow> Some (Inl e)
      | Inr r \<Rightarrow>
          (case nextCursor r of
             None \<Rightarrow> Some (Inr [r])
           | Some c' \<Rightarrow>
               (case fetch_pages n db u f ord lim (Some c') of
                  None \<Rightarrow> None
                | Some (Inl e) \<Rightarrow> Some (Inl e)
                | Some (Inr rs) \<Rightarrow> Some (Inr (r # rs)))))"
  by simp

lemma fetch_pages_from:
  fixes db u f ord lim
  defines "xs \<equiv> matching_posts db u f ord"
    and "l \<equiv> page_limit lim"
    and "P \<equiv> \<lambda>p. processFeedbackItem (projr (withCommentsPostSelect db p)) u"
  assumes rr: "relations_resolve db"
    and d: "distinct (map post_id xs)"
    and ne: "[] \<notin> set (map post_id xs)"
    and lpos: "0 < l"
  shows "xs = pre @ ys \<Longrightarrow> (c = None \<and> pre = []) \<or> (ys \<noteq> [] \<and> c = Some (post_id (hd ys))) \<Longrightarrow>
     \<exists>rs. (\<forall>m \<ge> (length ys - 1) div l + 1. fetch_pages m db u f ord lim c = Some (Inr rs))
        \<and> length rs = (length ys - 1) div l + 1
        \<and> nextCursor (last rs) = None
        \<and> (\<forall>r \<in> set (butlast rs). nextCursor r \<noteq> None)
        \<and> all_items_in_fetch_order rs = map P ys"
proof (induction "length ys" arbitrary: ys pre c rule: less_induct)
  case less
  note split = \<open>xs = pre @ ys\<close>
  have cur: "from_cursor (cursor_argument c) (matching_posts db u f ord) = ys"
  proof -
    from less.prems(2) show ?thesis
    proof
      assume "c = None \<and> pre = []"
      with split show ?thesis
        by (simp add: cursor_argument_def from_cursor_def xs_def)
    next
      assume a: "ys \<noteq> [] \<and> c = Some (post_id (hd ys))"
      then have "hd ys \<in> set xs" using split by simp
      with ne have "post_id (hd ys) \<noteq> []" by (metis imageI set_map)
      with cursor_suffix [of pre ys] d a split show ?thesis
        by (simp add: xs_def)
    qed
  qed
  define r where "r = \<lparr>items = rev (map P (take l ys)),
              nextCursor = (if l < length ys then Some (post_id (ys ! l)) else None)\<rparr>"
  have call: "postRouter_list db u
           \<lparr>input_filter = f, input_order = ord, input_limit = lim, input_cursor = c\<rparr> = Inr r"
    using list_page [OF rr cur, of lim] by (simp add: r_def l_def P_def)
  show ?case
  proof (cases "l < length ys")
    case False
    then have nc: "nextCursor r = None" and it: "rev (items r) = map P ys"
      by (simp_all add: r_def)
    from False lpos have n1: "(length ys - 1) div l + 1 = 1" by simp
    have "fetch_pages m db u f ord lim c = Some (Inr [r])" if "m \<ge> 1" for m
    proof -
      from that obtain m' where "m = Suc m'" by (cases m) auto
      with call nc show ?thesis by (simp only: fetch_pages_Suc) simp
    qed
    with nc it n1 have "(\<forall>m \<ge> (length ys - 1) div l + 1. fetch_pages m db u f ord lim c = Some (Inr [r]))
        \<and> length [r] = (length ys - 1) div l + 1
        \<and> nextCursor (last [r]) = None
        \<and> (\<forall>r' \<in> set (butlast [r]). nextCursor r' \<noteq> None)
        \<and> all_items_in_fetch_order [r] = map P ys"
      by (simp add: all_items_in_fetch_order_def)
    then show ?thesis by blast
  next
    case True
    let ?ys' = "drop l ys"
    have nc: "nextCursor r = Some (post_id (ys ! l))" and it: "rev (items r) = map P (take l ys)"
      using True by (simp_all add: r_def)
    have ne': "?ys' \<noteq> []" using True by simp
    have hd': "hd ?ys' = ys ! l" using True by (simp add: hd_drop_conv_nth)
    have shorter: "length ?ys' < length ys" using True lpos by simp
    have split': "xs = (pre @ take l ys) @ ?ys'" using split by simp
    have "(Some (post_id (ys ! l)) = None \<and> pre @ take l ys = [])
        \<or> (?ys' \<noteq> [] \<and> Some (post_id (ys ! l)) = Some (post_id (hd ?ys')))"
      using ne' hd' by simp
    from less.hyps [OF shorter split' this]
    obtain rs' where rs':
      "\<forall>m \<ge> (length ?ys' - 1) div l + 1.
          fetch_pages m db u f ord lim (Some (post_id (ys ! l))) = Some (Inr rs')"
      "length rs' = (length ?ys' - 1) div l + 1"
      "nextCursor (last rs') = None"
      "\<forall>r \<in> set (butlast rs'). nextCursor r \<noteq> None"
      "all_items_in_fetch_order rs' = map P ?ys'"
      by blast
    from rs'(2) have rne: "rs' \<noteq> []" by auto
    have "length ys - 1 = (length ys - l - 1) + l" using True lpos by simp
    then have "(length ys - 1) div l = (length ys - l - 1) div l + 1"
      using lpos by (simp only: div_add_self2)
    then have cnt: "(length ys - 1) div l + 1 = Suc ((length ?ys' - 1) div l + 1)"
      by simp
    have fuel: "fetch_pages m db u f ord lim c = Some (Inr (r # rs'))"
      if "m \<ge> (length ys - 1) div l + 1" for m
    proof -
      from that cnt obtain m' where m': "m = Suc m'" "m' \<ge> (length ?ys' - 1) div l + 1"
        by (cases m) auto
      with rs'(1) have "fetch_pages m' db u f ord lim (Some (post_id (ys ! l))) = Some (Inr rs')"
        by blast
      with call nc m'(1) show ?thesis by (simp only: fetch_pages_Suc) simp
    qed
    have all: "all_items_in_fetch_order (r # rs') = map P ys"
    proof -
      have "all_items_in_fetch_order (r # rs') = map P (take l ys) @ map P (drop l ys)"
        using it rs'(5) by (simp add: all_items_in_fetch_order_def)
      also have "\<dots> = map P ys"
        by (simp only: map_append [symmetric] append_take_drop_id)
      finally show ?thesis .
    qed
    have "(\<forall>m \<ge> (length ys - 1) div l + 1. fetch_pages m db u f ord lim c = Some (Inr (r # rs')))
        \<and> length (r # rs') = (length ys - 1) div l + 1
        \<and> nextCursor (last (r # rs')) = None
        \<and> (\<forall>r' \<in> set (butlast (r # rs')). nextCursor r' \<noteq> None)
        \<and> all_items_in_fetch_order (r # rs') = map P ys"
      using fuel rs'(2,3,4) rne nc cnt all by simp
    then show ?thesis by blast
  qed
qed


lemma mset_all_items: "mset (all_items rs) = mset (all_items_in_fetch_order rs)"
  by (induction rs) (simp_all add: all_items_def all_items_in_fetch_order_def)

lemma unpaginated_fetch_resolved:
  assumes "relations_resolve db"
  shows "unpaginated_fetch db u f ord
       = Inr (map (\<lambda>p. processFeedbackItem (projr (withCommentsPostSelect db p)) u)
               (matching_posts db u f ord))"
proof -
  have "post_rows db (getFilterWhereClause u f) ord None None = matching_posts db u f ord"
    by (simp add: post_rows_def take_rows_def from_cursor_def matching_posts_def)
  with traverse_map_select [OF assms set_matching_posts, of u f ord]
  show ?thesis
    by (simp add: unpaginated_fetch_def post_findMany_def comp_def)
qed

lemma processed_ids:
  assumes "relations_resolve db" "set rows \<subseteq> set (post_table db)"
  shows "map item_id (map (\<lambda>p. processFeedbackItem (projr (withCommentsPostSelect db p)) u) rows)
       = map post_id rows"
  using assms(2) by (induction rows) (simp_all add: processFeedbackItem_id select_projr_pid [OF assms(1)])

lemma example_keyed: "post_ids_keyed example_db"
  by (simp add: post_ids_keyed_def example_db_def)

lemma example_matching_length: "length (matching_posts example_db ''u1'' All Asc) = 3"
  by code_simp

lemma example_pages:
  "map_option (map_sum id (map response_ids)) (fetch_pages 2 example_db ''u1'' All Asc (Some 2) None)
     = Some (Inr [([''p2'', ''p1''], Some ''p3''), ([''p3''], None)])"
  by code_simp

lemma example_unpaginated:
  "map_sum id (map item_id) (unpaginated_fetch example_db ''u1'' All Asc)
     = Inr [''p1'', ''p2'', ''p3'']"
  by code_simp

lemma example_whole:
  "map_sum id response_ids
     (postRouter_list example_db ''u1''
        \<lparr>input_filter = All, input_order = Asc, input_limit = None, input_cursor = None\<rparr>)
     = Inr ([''p3'', ''p2'', ''p1''], None)"
  by code_simp

lemma example_first_page:
  "map_sum id response_ids (postRouter_list example_db ''u1'' example_request)
     = Inr ([''p2'', ''p1''], Some ''p3'')"
  by code_simp


lemma example_differs:
  "map_option (map_sum id all_items) (fetch_pages 2 example_db ''u1'' All Asc (Some 2) None)
     \<noteq> Some (unpaginated_fetch example_db ''u1'' All Asc)"
  by code_simp

lemma example_differs_whole:
  "map_option (map_sum id all_items) (fetch_pages 2 example_db ''u1'' All Asc (Some 2) None)
     \<noteq> Some (map_sum id items
               (postRouter_list example_db ''u1''
                  \<lparr>input_filter = All, input_order = Asc, input_limit = None,
                   input_cursor = None\<rparr>))"
  by code_simp


text \<open>
  C2, as the code has it. In a store whose post identifiers are distinct and not empty
  and whose rows refer to existing users, for every filter, order and limit other than
  zero: a client that starts with no cursor and feeds each \<^verbatim>\<open>nextCursor\<close> back gets,
  after one call per \<open>limit\<close> matching posts (and at least one), a response with no
  \<^verbatim>\<open>nextCursor\<close>, every response before it having one. The items of the responses,
  each response put back in the order in which the store returned it, are the single
  fetch with neither \<^verbatim>\<open>take\<close> nor \<^verbatim>\<open>cursor\<close>; the items as the responses give them
  are the same records with the same multiplicities, each post once.
\<close>

theorem list_pagination_complete:
  assumes "relations_resolve db" and "post_ids_keyed db" and "lim \<noteq> Some 0"
  shows "\<exists>rs fetched.
      (\<forall>m \<ge> (length (matching_posts db u f ord) - 1) div page_limit lim + 1.
          fetch_pages m db u f ord lim None = Some (Inr rs))
      \<and> length rs = (length (matching_posts db u f ord) - 1) div page_limit lim + 1
      \<and> nextCursor (last rs) = None
      \<and> (\<forall>r \<in> set (butlast rs). nextCursor r \<noteq> None)
      \<and> unpaginated_fetch db u f ord = Inr fetched
      \<and> all_items_in_fetch_order rs = fetched
      \<and> mset (all_items rs) = mset fetched
      \<and> distinct (map item_id (all_items rs))
      \<and> map item_id fetched = map post_id (matching_posts db u f ord)"
proof -
  let ?xs = "matching_posts db u f ord"
  let ?P = "\<lambda>p. processFeedbackItem (projr (withCommentsPostSelect db p)) u"
  from assms(2) have d: "distinct (map post_id ?xs)"
    by (simp add: post_ids_keyed_def distinct_matching_posts)
  from assms(2) set_matching_posts [of db u f ord] have ne: "[] \<notin> set (map post_id ?xs)"
    by (auto simp: post_ids_keyed_def)
  from assms(3) have lpos: "0 < page_limit lim"
    by (cases lim) (simp_all add: page_limit_def)
  have "?xs = [] @ ?xs" by simp
  from fetch_pages_from [OF assms(1) d ne lpos this, of None]
  obtain rs where rs:
    "\<forall>m \<ge> (length ?xs - 1) div page_limit lim + 1.
        fetch_pages m db u f ord lim None = Some (Inr rs)"
    "length rs = (length ?xs - 1) div page_limit lim + 1"
    "nextCursor (last rs) = None"
    "\<forall>r \<in> set (butlast rs). nextCursor r \<noteq> None"
    "all_items_in_fetch_order rs = map ?P ?xs"
    by auto
  note un = unpaginated_fetch_resolved [OF assms(1), of u f ord]
  have ids: "map item_id (map ?P ?xs) = map post_id ?xs"
    by (rule processed_ids [OF assms(1) set_matching_posts])
  have ms: "mset (all_items rs) = mset (map ?P ?xs)"
    by (simp only: mset_all_items rs(5))
  then have "mset (map item_id (all_items rs)) = mset (map item_id (map ?P ?xs))"
    by (simp only: mset_map)
  from mset_eq_imp_distinct_iff [OF this]
  have "distinct (map item_id (all_items rs)) = distinct (map post_id ?xs)"
    by (simp only: ids)
  with d have dist: "distinct (map item_id (all_items rs))" by blast
  from rs un ids ms dist show ?thesis by blast
qed


theorem list_pagination_complete_witness:
  "relations_resolve example_db \<and> post_ids_keyed example_db \<and> Some (2::nat) \<noteq> Some 0
   \<and> (\<exists>rs fetched.
         fetch_pages 2 example_db ''u1'' All Asc (Some 2) None = Some (Inr rs)
         \<and> length rs = 2
         \<and> nextCursor (last rs) = None
         \<and> unpaginated_fetch example_db ''u1'' All Asc = Inr fetched
         \<and> all_items_in_fetch_order rs = fetched
         \<and> mset (all_items rs) = mset fetched
         \<and> distinct (map item_id (all_items rs)))"
proof -
  have lim: "Some (2::nat) \<noteq> Some 0" by simp
  have n: "(length (matching_posts example_db ''u1'' All Asc) - 1) div page_limit (Some 2) + 1 = 2"
    by (simp add: example_matching_length page_limit_def)
  from list_pagination_complete [OF example_relations_resolve example_keyed lim, of "''u1''" All Asc]
  obtain rs fetched where r:
    "\<forall>m \<ge> (length (matching_posts example_db ''u1'' All Asc) - 1) div page_limit (Some 2) + 1.
          fetch_pages m example_db ''u1'' All Asc (Some 2) None = Some (Inr rs)"
    "length rs = (length (matching_posts example_db ''u1'' All Asc) - 1) div page_limit (Some 2) + 1"
    "nextCursor (last rs) = None"
    "unpaginated_fetch example_db ''u1'' All Asc = Inr fetched"
    "all_items_in_fetch_order rs = fetched"
    "mset (all_items rs) = mset fetched"
    "distinct (map item_id (all_items rs))"
    by blast
  from r(1) n have "fetch_pages 2 example_db ''u1'' All Asc (Some 2) None = Some (Inr rs)"
    by simp
  moreover from r(2) n have "length rs = 2" by simp
  ultimately have "\<exists>rs fetched.
         fetch_pages 2 example_db ''u1'' All Asc (Some 2) None = Some (Inr rs)
         \<and> length rs = 2
         \<and> nextCursor (last rs) = None
         \<and> unpaginated_fetch example_db ''u1'' All Asc = Inr fetched
         \<and> all_items_in_fetch_order rs = fetched
         \<and> mset (all_items rs) = mset fetched
         \<and> distinct (map item_id (all_items rs))"
    using r(3-7) by blast
  with example_relations_resolve example_keyed lim show ?thesis
    by (intro conjI)
qed

text \<open>
  The claim as it stands fails on the example store with pages of two posts: the
  responses hold the posts p2, p1 and then p3, while the single fetch returns p1, p2, p3,
  and one call of \<^verbatim>\<open>list\<close> with the default limit returns p3, p2, p1.
\<close>

theorem list_pagination_order_counterexample:
  "relations_resolve example_db \<and> post_ids_keyed example_db
   \<and> map_option (map_sum id (map response_ids))
        (fetch_pages 2 example_db ''u1'' All Asc (Some 2) None)
       = Some (Inr [([''p2'', ''p1''], Some ''p3''), ([''p3''], None)])
   \<and> map_sum id (map item_id) (unpaginated_fetch example_db ''u1'' All Asc)
       = Inr [''p1'', ''p2'', ''p3'']
   \<and> map_option (map_sum id all_items) (fetch_pages 2 example_db ''u1'' All Asc (Some 2) None)
       \<noteq> Some (unpaginated_fetch example_db ''u1'' All Asc)
   \<and> map_sum id response_ids
        (postRouter_list example_db ''u1''
           \<lparr>input_filter = All, input_order = Asc, input_limit = None, input_cursor = None\<rparr>)
       = Inr ([''p3'', ''p2'', ''p1''], None)
   \<and> map_option (map_sum id all_items) (fetch_pages 2 example_db ''u1'' All Asc (Some 2) None)
       \<noteq> Some (map_sum id items
                 (postRouter_list example_db ''u1''
                    \<lparr>input_filter = All, input_order = Asc, input_limit = None,
                     input_cursor = None\<rparr>))"
  by (intro conjI)
     (fact example_relations_resolve example_keyed example_pages example_unpaginated
        example_differs example_whole example_differs_whole)+

subsection \<open>One page of list\<close>

lemma sorted_orderBy:
  "(ord = Asc \<longrightarrow> sorted_wrt (\<lambda>p q. post_createdAt p \<le> post_createdAt q) (orderBy_createdAt ord xs))
   \<and> (ord = Desc \<longrightarrow> sorted_wrt (\<lambda>p q. post_createdAt q \<le> post_createdAt p) (orderBy_createdAt ord xs))"
proof -
  have "sorted (map post_createdAt (sort_key post_createdAt xs))"
    by (rule sorted_sort_key)
  then have a: "sorted_wrt (\<lambda>p q. post_createdAt p \<le> post_createdAt q) (sort_key post_createdAt xs)"
    by (simp only: sorted_map)
  have "sorted (map (\<lambda>p. - post_createdAt p) (sort_key (\<lambda>p. - post_createdAt p) xs))"
    by (rule sorted_sort_key)
  then have b: "sorted_wrt (\<lambda>p q. post_createdAt q \<le> post_createdAt p)
                  (sort_key (\<lambda>p. - post_createdAt p) xs)"
    by (simp add: sorted_map)
  from a b show ?thesis by (simp add: orderBy_createdAt_def)
qed

lemma sorted_wrt_page:
  "sorted_wrt R xs \<Longrightarrow> sorted_wrt R (take n (from_cursor c xs))"
  by (cases c) (simp_all add: from_cursor_def sorted_wrt_take sorted_wrt_dropWhile)

lemma from_cursor_starts:
  "from_cursor (Some c) xs \<noteq> [] \<Longrightarrow> post_id (hd (from_cursor (Some c) xs)) = c"
  using hd_dropWhile [of "\<lambda>p. post_id p \<noteq> c" xs] by (simp add: from_cursor_def)

text \<open>
  C3. One call of \<^verbatim>\<open>list\<close> asks the store for the first \<open>limit + 1\<close> rows (\<open>limit\<close> is
  50 when the input has none) of the posts the filter selects, ordered by creation time
  as requested, from the row of the cursor on when there is a cursor and from the first
  row when there is none. When more than \<open>limit\<close> records come back, the last one is
  removed and its identifier is the \<^verbatim>\<open>nextCursor\<close>; otherwise there is no
  \<^verbatim>\<open>nextCursor\<close>. The items are the remaining records, each processed for the session
  user, in the reverse of the order fetched. The store returns a record for each row
  whenever the users the rows refer to exist.
\<close>

theorem list_single_page:
  "(let limit = (case input_limit input of None \<Rightarrow> 50 | Some l \<Rightarrow> l);
        ordered = orderBy_createdAt (input_order input)
                    (filter (post_matches db (getFilterWhereClause u (input_filter input)))
                       (post_table db));
        rows = take (limit + 1) (from_cursor (cursor_argument (input_cursor input)) ordered)
    in (input_order input = Asc \<longrightarrow>
          sorted_wrt (\<lambda>p q. post_createdAt p \<le> post_createdAt q) rows)
     \<and> (input_order input = Desc \<longrightarrow>
          sorted_wrt (\<lambda>p q. post_createdAt q \<le> post_createdAt p) rows)
     \<and> (\<forall>c. cursor_argument (input_cursor input) = Some c \<and> rows \<noteq> [] \<longrightarrow>
            post_id (hd rows) = c)
     \<and> (cursor_argument (input_cursor input) = None \<longrightarrow> rows = take (limit + 1) ordered)
     \<and> length rows \<le> limit + 1
     \<and> postRouter_list db u input
        = (case traverse (withCommentsPostSelect db) rows of
             Inl e \<Rightarrow> Inl e
           | Inr fetched \<Rightarrow>
               Inr \<lparr>items = rev (map (\<lambda>item. processFeedbackItem item u)
                                 (if limit < length fetched then butlast fetched else fetched)),
                    nextCursor = (if limit < length fetched
                                  then Some (pid (last fetched)) else None)\<rparr>)
     \<and> (relations_resolve db \<longrightarrow>
          (\<exists>fetched. traverse (withCommentsPostSelect db) rows = Inr fetched
             \<and> length fetched = length rows \<and> map pid fetched = map post_id rows)))"
proof -
  define limit where "limit = (case input_limit input of None \<Rightarrow> 50 | Some l \<Rightarrow> l)"
  define ordered where "ordered = orderBy_createdAt (input_order input)
                    (filter (post_matches db (getFilterWhereClause u (input_filter input)))
                       (post_table db))"
  define rows where "rows = take (limit + 1) (from_cursor (cursor_argument (input_cursor input)) ordered)"
  have rows_eq: "post_rows db (getFilterWhereClause u (input_filter input)) (input_order input)
                (cursor_argument (input_cursor input)) (Some (limit + 1)) = rows"
    by (simp add: post_rows_def take_rows_def rows_def ordered_def)
  note so = sorted_orderBy [of "input_order input"
      "filter (post_matches db (getFilterWhereClause u (input_filter input))) (post_table db)"]
  have 1: "input_order input = Asc \<longrightarrow>
          sorted_wrt (\<lambda>p q. post_createdAt p \<le> post_createdAt q) rows"
    using so unfolding rows_def ordered_def by (blast intro: sorted_wrt_page)
  have 2: "input_order input = Desc \<longrightarrow>
          sorted_wrt (\<lambda>p q. post_createdAt q \<le> post_createdAt p) rows"
    using so unfolding rows_def ordered_def by (blast intro: sorted_wrt_page)
  have 3: "\<forall>c. cursor_argument (input_cursor input) = Some c \<and> rows \<noteq> [] \<longrightarrow>
            post_id (hd rows) = c"
  proof (intro allI impI)
    fix c assume a: "cursor_argument (input_cursor input) = Some c \<and> rows \<noteq> []"
    then have ne: "from_cursor (Some c) ordered \<noteq> []" by (auto simp: rows_def)
    from a have "hd rows = hd (from_cursor (Some c) ordered)"
      by (simp add: rows_def)
    with from_cursor_starts [OF ne] show "post_id (hd rows) = c" by simp
  qed
  have 4: "cursor_argument (input_cursor input) = None \<longrightarrow> rows = take (limit + 1) ordered"
    by (simp add: rows_def from_cursor_def)
  have 5: "length rows \<le> limit + 1" by (simp add: rows_def)
  have 6: "postRouter_list db u input
        = (case traverse (withCommentsPostSelect db) rows of
             Inl e \<Rightarrow> Inl e
           | Inr fetched \<Rightarrow>
               Inr \<lparr>items = rev (map (\<lambda>item. processFeedbackItem item u)
                                 (if limit < length fetched then butlast fetched else fetched)),
                    nextCursor = (if limit < length fetched
                                  then Some (pid (last fetched)) else None)\<rparr>)"
    using rows_eq by (simp only: list_unfold [of db u input] limit_def [symmetric])
  have 7: "relations_resolve db \<longrightarrow>
          (\<exists>fetched. traverse (withCommentsPostSelect db) rows = Inr fetched
             \<and> length fetched = length rows \<and> map pid fetched = map post_id rows)"
  proof
    assume rr: "relations_resolve db"
    have "set rows \<subseteq> set (post_table db)"
      using set_post_rows [of db "getFilterWhereClause u (input_filter input)" "input_order input"
              "cursor_argument (input_cursor input)" "Some (limit + 1)"]
      by (simp only: rows_eq)
    from traverse_rows_total [OF rr this] obtain fetched
      where f: "traverse (withCommentsPostSelect db) rows = Inr fetched" by blast
    from traverse_pids [OF f] have p: "map pid fetched = map post_id rows" .
    then have "length (map pid fetched) = length (map post_id rows)" by (simp only:)
    then have "length fetched = length rows" by simp
    with f p show "\<exists>fetched. traverse (withCommentsPostSelect db) rows = Inr fetched
             \<and> length fetched = length rows \<and> map pid fetched = map post_id rows"
      by blast
  qed
  from 1 2 3 4 5 6 7 show ?thesis
    unfolding Let_def limit_def [symmetric] ordered_def [symmetric] rows_def [symmetric]
    by (intro conjI)
qed


theorem list_single_page_witness:
  "input_order example_request = Asc
   \<and> cursor_argument (input_cursor example_request) = None
   \<and> relations_resolve example_db
   \<and> map_sum id response_ids (postRouter_list example_db ''u1'' example_request)
       = Inr ([''p2'', ''p1''], Some ''p3'')
   \<and> input_order example_request_next = Desc
   \<and> cursor_argument (input_cursor example_request_next) = Some ''p2''
   \<and> map_sum id response_ids (postRouter_list example_db ''u1'' example_request_next)
       = Inr ([''p2''], Some ''p1'')"
proof -
  note t1 = list_single_page [where input = example_request and db = example_db and u = "''u1''",
              unfolded Let_def]
  note t2 = list_single_page [where input = example_request_next and db = example_db
              and u = "''u1''", unfolded Let_def]
  note eq1 = t1 [THEN conjunct2, THEN conjunct2, THEN conjunct2, THEN conjunct2, THEN conjunct2,
                 THEN conjunct1]
  note eq2 = t2 [THEN conjunct2, THEN conjunct2, THEN conjunct2, THEN conjunct2, THEN conjunct2,
                 THEN conjunct1]
  have a: "input_order example_request = Asc"
    "cursor_argument (input_cursor example_request) = None"
    by (simp_all add: example_request_def cursor_argument_def)
  have b: "input_order example_request_next = Desc"
    "cursor_argument (input_cursor example_request_next) = Some ''p2''"
    by (simp_all add: example_request_next_def cursor_argument_def)
  have 1: "map_sum id response_ids (postRouter_list example_db ''u1'' example_request)
       = Inr ([''p2'', ''p1''], Some ''p3'')"
    unfolding eq1 by code_simp
  have 2: "map_sum id response_ids (postRouter_list example_db ''u1'' example_request_next)
       = Inr ([''p2''], Some ''p1'')"
    unfolding eq2 by code_simp
  show ?thesis
    by (intro conjI) (fact a b example_relations_resolve 1 2)+
qed


end
